theory Spec2Isabelle
  imports Main "HOL-Library.Sublist"
begin

section \<open>Protocol constants\<close>

text \<open>
  \<^verbatim>\<open>models.py\<close> imports four one-character constants from \<^verbatim>\<open>django_mqtt.protocol\<close>.
\<close>

definition TOPIC_SEP :: char where
  \<comment> \<open>Modelled from the spec: \<^verbatim>\<open>django_mqtt.protocol.TOPIC_SEP\<close>, the segment separator.\<close>
  "TOPIC_SEP = CHR ''/''"

definition WILDCARD_MULTI_LEVEL :: char where
  \<comment> \<open>Modelled from the spec: \<^verbatim>\<open>django_mqtt.protocol.WILDCARD_MULTI_LEVEL\<close>.\<close>
  "WILDCARD_MULTI_LEVEL = CHR ''#''"

definition WILDCARD_SINGLE_LEVEL :: char where
  \<comment> \<open>Modelled from the spec: \<^verbatim>\<open>django_mqtt.protocol.WILDCARD_SINGLE_LEVEL\<close>.\<close>
  "WILDCARD_SINGLE_LEVEL = CHR ''+''"

definition TOPIC_BEGINNING_DOLLAR :: char where
  \<comment> \<open>Modelled from the spec: \<^verbatim>\<open>django_mqtt.protocol.TOPIC_BEGINNING_DOLLAR\<close>.\<close>
  "TOPIC_BEGINNING_DOLLAR = CHR ''$''"

definition PROTO_MQTT_ACC_SUS :: int where
  "PROTO_MQTT_ACC_SUS = 1"

definition PROTO_MQTT_ACC_PUB :: int where
  "PROTO_MQTT_ACC_PUB = 2"

definition PROTO_MQTT_ACC :: "int list" where
  \<comment> \<open>the keys of \<^verbatim>\<open>dict(PROTO_MQTT_ACC)\<close>\<close>
  "PROTO_MQTT_ACC = [PROTO_MQTT_ACC_SUS, PROTO_MQTT_ACC_PUB]"


section \<open>Python string operations\<close>

text \<open>
  \<^verbatim>\<open>str.split(sep)\<close> for a one-character separator: the result is never empty, and
  the empty string splits into one empty piece.
\<close>

fun split :: "char \<Rightarrow> string \<Rightarrow> string list" where
  "split c [] = [[]]"
| "split c (x # xs) =
     (if x = c then [] # split c xs
      else (case split c xs of [] \<Rightarrow> [[x]] | p # ps \<Rightarrow> (x # p) # ps))"

definition startswith :: "string \<Rightarrow> string \<Rightarrow> bool" where
  "startswith s p = prefix p s"

definition endswith :: "string \<Rightarrow> string \<Rightarrow> bool" where
  "endswith s p = suffix p s"

definition str_contains :: "string \<Rightarrow> string \<Rightarrow> bool" where
  \<comment> \<open>\<^verbatim>\<open>p in s\<close> on strings\<close>
  "str_contains s p = sublist p s"


section \<open>Data model\<close>

datatype error =
    ValidationError
  | ValueError
  | DatabaseError
  | TopicDoesNotExist
  | ACLDoesNotExist
  | MultipleObjectsReturned
  | StopIteration
  | BadLookupValue

record Topic =
  pk :: "nat option"
  name :: string
  wildcard :: bool
  dollar :: bool

record ACL =
  acl_pk :: nat
  allow :: bool
  topic_id :: nat
  acc :: int
  users :: "nat list"
  groups :: "nat list"
  password :: "string option"

record User =
  user_pk :: "nat option"
  is_anonymous :: bool
  user_groups :: "nat list"

record Settings =
  MQTT_ACL_ALLOW :: "bool option"
  MQTT_ACL_ALLOW_ANONIMOUS :: "bool option"

record store =
  topics :: "Topic list"
  acls :: "ACL list"

definition new_Topic :: "string \<Rightarrow> Topic" where
  \<comment> \<open>\<^verbatim>\<open>Topic(name=s)\<close>: an unsaved instance with the field defaults\<close>
  "new_Topic s = \<lparr>pk = None, name = s, wildcard = False, dollar = False\<rparr>"


section \<open>Topic\<close>

definition Topic_eq :: "Topic \<Rightarrow> Topic \<Rightarrow> bool" where
  "Topic_eq self other = (name self = name other)"

definition Topic_len :: "Topic \<Rightarrow> nat" where
  "Topic_len self = length (name self)"

definition truthy :: "Topic \<Rightarrow> bool" where
  \<comment> \<open>Python truth value of an instance of a class that defines \<^verbatim>\<open>__len__\<close>\<close>
  "truthy t = (Topic_len t \<noteq> 0)"

definition is_wildcard :: "Topic \<Rightarrow> bool" where
  "is_wildcard self =
     (WILDCARD_MULTI_LEVEL \<in> set (name self) \<or> WILDCARD_SINGLE_LEVEL \<in> set (name self))"

definition is_dollar :: "Topic \<Rightarrow> bool" where
  "is_dollar self = startswith (name self) [TOPIC_BEGINNING_DOLLAR]"

text \<open>
  The \<^verbatim>\<open>for part in my_parts\<close> loop of \<^verbatim>\<open>__contains__\<close>; \<^verbatim>\<open>next(iter_comp)\<close> on an
  exhausted iterator raises, which is the value \<open>None\<close>. The third argument is
  \<^verbatim>\<open>comp.is_wildcard()\<close>.
\<close>

fun walk :: "string list \<Rightarrow> string list \<Rightarrow> bool \<Rightarrow> bool option" where
  "walk [] cs w = Some True"
| "walk (part # ps) [] w = None"
| "walk (part # ps) (compare # cs) w =
     (if part = [WILDCARD_SINGLE_LEVEL] then
        (if w \<and> compare = [WILDCARD_MULTI_LEVEL] then Some False else walk ps cs w)
      else if part = [WILDCARD_MULTI_LEVEL] then Some True
      else if part \<noteq> compare then Some False
      else walk ps cs w)"

definition Topic_contains :: "Topic \<Rightarrow> Topic \<Rightarrow> error + bool" where
  "Topic_contains self item =
     (if \<not> truthy item then Inr False
      else if Topic_eq self item then Inr True
      else if \<not> is_wildcard self then Inr False
      else if (is_dollar self \<and> \<not> is_dollar item) \<or> (is_dollar item \<and> \<not> is_dollar self)
        then Inr False
      else
        let my_parts = split TOPIC_SEP (name self);
            comp_parts = split TOPIC_SEP (name item)
        in if is_dollar self \<and> hd my_parts \<noteq> hd comp_parts then Inr False
           else
             let comp_size = length comp_parts
             in if comp_size < length my_parts then Inr False
                else if \<not> endswith (name self) [WILDCARD_MULTI_LEVEL]
                        \<and> comp_size > length my_parts then Inr False
                else (case walk my_parts comp_parts (is_wildcard item) of
                        None \<Rightarrow> Inl StopIteration
                      | Some b \<Rightarrow> Inr b))"

definition covers :: "Topic \<Rightarrow> Topic \<Rightarrow> bool" where
  "covers self item = (Topic_contains self item = Inr True)"

definition Topic_lt :: "Topic \<Rightarrow> Topic \<Rightarrow> error + bool" where
  "Topic_lt self other =
     (if \<not> truthy other \<or> \<not> is_wildcard other then Inr False
      else Topic_contains other self)"

definition Topic_gt :: "Topic \<Rightarrow> Topic \<Rightarrow> error + bool" where
  "Topic_gt self other =
     (if \<not> is_wildcard self then Inr False else Topic_contains self other)"

text \<open>
  Truth value of an optional string (\<^verbatim>\<open>None\<close> and the empty string are false), and the
  two tests \<^verbatim>\<open>save\<close> makes on \<^verbatim>\<open>update_fields\<close>.
\<close>

definition str_truthy :: "string option \<Rightarrow> bool" where
  "str_truthy p = (case p of None \<Rightarrow> False | Some s \<Rightarrow> s \<noteq> [])"

definition not_fields :: "string list option \<Rightarrow> bool" where
  \<comment> \<open>\<^verbatim>\<open>not update_fields\<close>\<close>
  "not_fields uf = (case uf of None \<Rightarrow> True | Some fs \<Rightarrow> fs = [])"

definition in_fields :: "string \<Rightarrow> string list option \<Rightarrow> bool" where
  \<comment> \<open>\<^verbatim>\<open>f in update_fields\<close>, evaluated only when \<^verbatim>\<open>update_fields\<close> is a non-empty list\<close>
  "in_fields f uf = (case uf of None \<Rightarrow> False | Some fs \<Rightarrow> f \<in> set fs)"


section \<open>The store: the object manager's operations\<close>

definition Topic_objects_get :: "store \<Rightarrow> string \<Rightarrow> error + Topic" where
  \<comment> \<open>\<^verbatim>\<open>Topic.objects.get(name=s)\<close>\<close>
  "Topic_objects_get st s =
     (case filter (\<lambda>t. name t = s) (topics st) of
        [] \<Rightarrow> Inl TopicDoesNotExist
      | [t] \<Rightarrow> Inr t
      | _ \<Rightarrow> Inl MultipleObjectsReturned)"

definition full_clean :: "(string \<Rightarrow> bool) \<Rightarrow> store \<Rightarrow> Topic \<Rightarrow> bool" where
  \<comment> \<open>The field checks of \<^verbatim>\<open>Topic.name\<close>: \<^verbatim>\<open>blank=False\<close>, \<^verbatim>\<open>max_length=1024\<close>, the
      validator (\<^verbatim>\<open>django_mqtt.validators.TopicValidator\<close>, a parameter) and
      \<^verbatim>\<open>unique=True\<close>.\<close>
  "full_clean TopicValidator st self =
     (name self \<noteq> [] \<and> length (name self) \<le> 1024 \<and> TopicValidator (name self)
      \<and> \<not> list_ex (\<lambda>r. name r = name self \<and> pk r \<noteq> pk self) (topics st))"

definition next_pk :: "store \<Rightarrow> nat" where
  \<comment> \<open>the key an inserted row gets: above every key in the table\<close>
  "next_pk st = Suc (fold max (List.map_filter pk (topics st)) 0)"

definition update_row :: "string list \<Rightarrow> Topic \<Rightarrow> Topic \<Rightarrow> Topic" where
  "update_row fs self r =
     r\<lparr>name := (if ''name'' \<in> set fs then name self else name r),
       wildcard := (if ''wildcard'' \<in> set fs then wildcard self else wildcard r),
       dollar := (if ''dollar'' \<in> set fs then dollar self else dollar r)\<rparr>"

definition Model_save :: "store \<Rightarrow> Topic \<Rightarrow> string list option \<Rightarrow> error + (store \<times> Topic)" where
  \<comment> \<open>\<^verbatim>\<open>models.Model.save\<close>: an empty \<^verbatim>\<open>update_fields\<close> writes nothing, a non-empty one
      updates the named columns of the row with this key, and none at all updates the
      whole row with this key or inserts it.\<close>
  "Model_save st self update_fields =
     (case update_fields of
        None \<Rightarrow>
          (case pk self of
             None \<Rightarrow>
               let t = self\<lparr>pk := Some (next_pk st)\<rparr>
               in Inr (st\<lparr>topics := topics st @ [t]\<rparr>, t)
           | Some i \<Rightarrow>
               if list_ex (\<lambda>r. pk r = Some i) (topics st)
               then Inr (st\<lparr>topics := map (\<lambda>r. if pk r = Some i then self else r) (topics st)\<rparr>, self)
               else Inr (st\<lparr>topics := topics st @ [self]\<rparr>, self))
      | Some [] \<Rightarrow> Inr (st, self)
      | Some fs \<Rightarrow>
          if \<not> list_all (\<lambda>f. f \<in> set [''name'', ''wildcard'', ''dollar'']) fs then Inl ValueError
          else
            (case pk self of
               None \<Rightarrow> Inl ValueError
             | Some i \<Rightarrow>
                 if list_ex (\<lambda>r. pk r = Some i) (topics st)
                 then Inr (st\<lparr>topics := map (\<lambda>r. if pk r = Some i then update_row fs self r else r)
                                           (topics st)\<rparr>, self)
                 else Inl DatabaseError))"

definition SecureSave_save ::
  "(string \<Rightarrow> bool) \<Rightarrow> store \<Rightarrow> Topic \<Rightarrow> string list option \<Rightarrow> error + (store \<times> Topic)" where
  "SecureSave_save TopicValidator st self update_fields =
     (if \<not> full_clean TopicValidator st self then Inl ValidationError
      else Model_save st self update_fields)"

definition Topic_save ::
  "(string \<Rightarrow> bool) \<Rightarrow> store \<Rightarrow> Topic \<Rightarrow> string list option \<Rightarrow> error + (store \<times> Topic)" where
  "Topic_save TopicValidator st self update_fields =
     (let self1 = (if not_fields update_fields \<or> in_fields ''wildcard'' update_fields
                   then self\<lparr>wildcard := is_wildcard self\<rparr> else self);
          self2 = (if not_fields update_fields \<or> in_fields ''dollar'' update_fields
                   then self1\<lparr>dollar := is_dollar self1\<rparr> else self1)
      in SecureSave_save TopicValidator st self2 update_fields)"

definition get_or_create ::
  "(string \<Rightarrow> bool) \<Rightarrow> store \<Rightarrow> string \<Rightarrow> error + (store \<times> Topic \<times> bool)" where
  \<comment> \<open>\<^verbatim>\<open>Topic.objects.get_or_create(name=s)\<close>: the row of that name, or a new instance
      saved through \<^verbatim>\<open>Topic.save\<close>\<close>
  "get_or_create TopicValidator st s =
     (case Topic_objects_get st s of
        Inr t \<Rightarrow> Inr (st, t, False)
      | Inl TopicDoesNotExist \<Rightarrow>
          (case Topic_save TopicValidator st (new_Topic s) None of
             Inl e \<Rightarrow> Inl e
           | Inr (st', t) \<Rightarrow> Inr (st', t, True))
      | Inl e \<Rightarrow> Inl e)"


section \<open>Candidate index\<close>

definition get_candidates :: "store \<Rightarrow> Topic \<Rightarrow> Topic list" where
  \<comment> \<open>The rows of the query set, in table order. The lookups \<^verbatim>\<open>name__startswith\<close>,
      \<^verbatim>\<open>name__endswith\<close> and \<^verbatim>\<open>name__contains\<close> are prefix, suffix and substring tests;
      the filters over \<^verbatim>\<open>set(parts[1:-1])\<close> commute, so their order is of no account.\<close>
  "get_candidates st self =
     (let candidates = filter (\<lambda>t. dollar t = is_dollar self \<and> wildcard t = False) (topics st);
          multi = endswith (name self) [WILDCARD_MULTI_LEVEL];
          topic = (if multi then butlast (name self) else name self);
          parts = split WILDCARD_SINGLE_LEVEL topic
      in if length parts = 1 then
           (if length topic \<noteq> 0 then filter (\<lambda>t. startswith (name t) topic) candidates
            else candidates)
         else if topic = [WILDCARD_SINGLE_LEVEL] then
           filter (\<lambda>t. \<not> str_contains (name t) [TOPIC_SEP]) candidates
         else
           let candidates1 =
                 (if multi
                  then filter (\<lambda>t. startswith (name t) (hd parts)
                                   \<and> str_contains (name t) (last parts)) candidates
                  else filter (\<lambda>t. startswith (name t) (hd parts)
                                   \<and> endswith (name t) (last parts)) candidates)
           in fold (\<lambda>part cs. filter (\<lambda>t. str_contains (name t) part) cs)
                   (remdups (butlast (tl parts))) candidates1)"

fun filter_in :: "Topic \<Rightarrow> Topic list \<Rightarrow> error + Topic list" where
  "filter_in self [] = Inr []"
| "filter_in self (candidate # cs) =
     (case Topic_contains self candidate of
        Inl e \<Rightarrow> Inl e
      | Inr b \<Rightarrow>
          (case filter_in self cs of
             Inl e \<Rightarrow> Inl e
           | Inr ys \<Rightarrow> Inr (if b then candidate # ys else ys)))"

definition Topic_iter :: "store \<Rightarrow> Topic \<Rightarrow> error + Topic list" where
  \<comment> \<open>the topics \<^verbatim>\<open>__iter__\<close> yields, in order\<close>
  "Topic_iter st self =
     (if \<not> is_wildcard self then Inr [self]
      else filter_in self (get_candidates st self))"


section \<open>ACL\<close>

definition ACL_topic :: "store \<Rightarrow> ACL \<Rightarrow> error + Topic" where
  \<comment> \<open>\<^verbatim>\<open>rule.topic\<close>: the row the foreign key points to\<close>
  "ACL_topic st r =
     (case find (\<lambda>t. pk t = Some (topic_id r)) (topics st) of
        None \<Rightarrow> Inl TopicDoesNotExist
      | Some t \<Rightarrow> Inr t)"

definition ACL_lt :: "store \<Rightarrow> ACL \<Rightarrow> ACL \<Rightarrow> error + bool" where
  "ACL_lt st self other =
     (case ACL_topic st self of
        Inl e \<Rightarrow> Inl e
      | Inr t1 \<Rightarrow>
          (case ACL_topic st other of
             Inl e \<Rightarrow> Inl e
           | Inr t2 \<Rightarrow> Topic_lt t1 t2))"

text \<open>
  The builtin \<^verbatim>\<open>min\<close> on a non-empty list: the first element is the current minimum, and
  each later element replaces it when it compares \<^verbatim>\<open><\<close> to it.
\<close>

fun min_loop :: "store \<Rightarrow> ACL \<Rightarrow> ACL list \<Rightarrow> error + ACL" where
  "min_loop st m [] = Inr m"
| "min_loop st m (x # xs) =
     (case ACL_lt st x m of
        Inl e \<Rightarrow> Inl e
      | Inr b \<Rightarrow> min_loop st (if b then x else m) xs)"

definition ACL_objects_get :: "store \<Rightarrow> Topic \<Rightarrow> int \<Rightarrow> error + ACL" where
  \<comment> \<open>\<^verbatim>\<open>ACL.objects.get(topic=topic, acc=acc)\<close>: the rows whose foreign key is the
      key of the instance; an instance without key matches no row\<close>
  "ACL_objects_get st topic a =
     (case filter (\<lambda>r. Some (topic_id r) = pk topic \<and> acc r = a) (acls st) of
        [] \<Rightarrow> Inl ACLDoesNotExist
      | [r] \<Rightarrow> Inr r
      | _ \<Rightarrow> Inl MultipleObjectsReturned)"

definition wildcard_rules :: "store \<Rightarrow> int \<Rightarrow> ACL list" where
  \<comment> \<open>\<^verbatim>\<open>cls.objects.filter(topic__wildcard=True, acc=acc)\<close>: the join reads the stored
      flag of the rule's topic\<close>
  "wildcard_rules st a =
     filter (\<lambda>r. acc r = a \<and> (case ACL_topic st r of Inl e \<Rightarrow> False | Inr t \<Rightarrow> wildcard t))
            (acls st)"

fun collect :: "store \<Rightarrow> Topic \<Rightarrow> ACL list \<Rightarrow> error + ACL list" where
  "collect st topic [] = Inr []"
| "collect st topic (candidate # rs) =
     (case ACL_topic st candidate of
        Inl e \<Rightarrow> Inl e
      | Inr t \<Rightarrow>
          (case Topic_contains t topic of
             Inl e \<Rightarrow> Inl e
           | Inr b \<Rightarrow>
               (case collect st topic rs of
                  Inl e \<Rightarrow> Inl e
                | Inr ys \<Rightarrow> Inr (if b then candidate # ys else ys))))"

definition resolve :: "store \<Rightarrow> Topic \<Rightarrow> int \<Rightarrow> error + ACL option" where
  \<comment> \<open>\<^verbatim>\<open>get_acl\<close> from \<^verbatim>\<open>candidates = []\<close> on, \<^verbatim>\<open>topic\<close> being a \<^verbatim>\<open>Topic\<close>\<close>
  "resolve st topic a =
     (case (case ACL_objects_get st topic a of
              Inr r \<Rightarrow> Inr [r]
            | Inl ACLDoesNotExist \<Rightarrow> collect st topic (wildcard_rules st a)
            | Inl e \<Rightarrow> Inl e) of
        Inl e \<Rightarrow> Inl e
      | Inr [] \<Rightarrow> Inr None
      | Inr (c # cs) \<Rightarrow>
          (case min_loop st c cs of Inl e \<Rightarrow> Inl e | Inr r \<Rightarrow> Inr (Some r)))"

datatype topic_arg = TStr string | TBytes string | TTopic Topic | TOther

definition get_acl ::
  "(string \<Rightarrow> bool) \<Rightarrow> store \<Rightarrow> topic_arg \<Rightarrow> int \<Rightarrow> store \<times> (error + ACL option)" where
  \<comment> \<open>The store after the call and its result. In the \<^verbatim>\<open>bytes\<close> branch \<^verbatim>\<open>topic\<close> is bound
      to the pair that \<^verbatim>\<open>get_or_create\<close> returns, which is no value the rule lookup
      accepts. Bytes are decoded as they are (a \<open>string\<close> is a list of bytes).\<close>
  "get_acl TopicValidator st topic a =
     (case topic of
        TStr s \<Rightarrow>
          (case get_or_create TopicValidator st s of
             Inl e \<Rightarrow> (st, Inl e)
           | Inr (st', t, is_new) \<Rightarrow> (st', resolve st' t a))
      | TBytes b \<Rightarrow>
          (case get_or_create TopicValidator st b of
             Inl e \<Rightarrow> (st, Inl e)
           | Inr (st', pair) \<Rightarrow> (st', Inl BadLookupValue))
      | TTopic t \<Rightarrow> (st, resolve st t a)
      | TOther \<Rightarrow> (st, Inl ValueError))"

definition is_public :: "ACL \<Rightarrow> bool" where
  "is_public self =
     (length (users self) = 0 \<and> length (groups self) = 0 \<and> \<not> str_truthy (password self))"

definition user_in :: "User \<Rightarrow> nat list \<Rightarrow> bool" where
  \<comment> \<open>\<^verbatim>\<open>user in self.users.all()\<close>: model instances are equal when their keys are; an
      anonymous user has none\<close>
  "user_in u us = (case user_pk u of None \<Rightarrow> False | Some i \<Rightarrow> i \<in> set us)"

definition group_in :: "User \<Rightarrow> nat list \<Rightarrow> bool" where
  \<comment> \<open>\<^verbatim>\<open>self.groups.filter(pk__in=user.groups.values_list('pk')).exists()\<close>\<close>
  "group_in u gs = list_ex (\<lambda>g. g \<in> set (user_groups u)) gs"

definition has_permission ::
  "(string \<Rightarrow> string \<Rightarrow> bool) \<Rightarrow> ACL \<Rightarrow> User option \<Rightarrow> string option \<Rightarrow> bool" where
  \<comment> \<open>\<^verbatim>\<open>check_password\<close> (the hasher's verification of a raw secret against the stored
      hash) is a parameter\<close>
  "has_permission check_password self user pw =
     (if is_public self then allow self
      else
        let allow1 =
              (case user of
                 None \<Rightarrow> False
               | Some u \<Rightarrow>
                   if user_in u (users self) then allow self
                   else if group_in u (groups self) then allow self
                   else \<not> allow self)
        in if str_truthy (password self) \<and> str_truthy pw
           then check_password (the pw) (the (password self))
           else allow1)"

definition get_default ::
  "Settings \<Rightarrow> (string \<Rightarrow> string \<Rightarrow> bool) \<Rightarrow> store \<Rightarrow> int \<Rightarrow> User option \<Rightarrow> string option
     \<Rightarrow> error + bool" where
  "get_default settings check_password st a user pw =
     (let allow0 = (case MQTT_ACL_ALLOW settings of None \<Rightarrow> False | Some v \<Rightarrow> v);
          anonymous = (case user of None \<Rightarrow> True | Some u \<Rightarrow> is_anonymous u);
          allow1 = (case MQTT_ACL_ALLOW_ANONIMOUS settings of
                      None \<Rightarrow> allow0
                    | Some v \<Rightarrow> if anonymous then v \<and> allow0 else allow0)
      in if MQTT_ACL_ALLOW_ANONIMOUS settings \<noteq> None \<and> anonymous \<and> \<not> allow1 \<and> \<not> str_truthy pw
         then Inr allow1
         else
           (case Topic_objects_get st [WILDCARD_MULTI_LEVEL] of
              Inl TopicDoesNotExist \<Rightarrow> Inr allow1
            | Inl e \<Rightarrow> Inl e
            | Inr broadcast_topic \<Rightarrow>
                let broadcast = filter (\<lambda>r. Some (topic_id r) = pk broadcast_topic) (acls st)
                in if a \<in> set PROTO_MQTT_ACC then
                     (case filter (\<lambda>r. acc r = a) broadcast of
                        [] \<Rightarrow> Inr allow1
                      | [broadcast_acl] \<Rightarrow> Inr (has_permission check_password broadcast_acl user pw)
                      | _ \<Rightarrow> Inl MultipleObjectsReturned)
                   else Inr allow1))"

text \<open>
  The grammar of a topic name that \<^verbatim>\<open>django_mqtt.validators.TopicValidator\<close> enforces.
\<close>

definition topic_grammar :: "string \<Rightarrow> bool" where
  \<comment> \<open>Modelled from the spec: \<^verbatim>\<open>django_mqtt.validators.TopicValidator\<close>; \<^verbatim>\<open>#\<close> only as
      the last segment, \<^verbatim>\<open>+\<close> occupies a whole segment.\<close>
  "topic_grammar s =
     (let ps = split TOPIC_SEP s
      in list_all (\<lambda>p. (WILDCARD_SINGLE_LEVEL \<in> set p \<longrightarrow> p = [WILDCARD_SINGLE_LEVEL])
                      \<and> (WILDCARD_MULTI_LEVEL \<in> set p \<longrightarrow> p = [WILDCARD_MULTI_LEVEL])) ps
         \<and> WILDCARD_MULTI_LEVEL \<notin> set (concat (butlast ps)))"


section \<open>Derived notions and example stores\<close>

definition saved_Topic :: "store \<Rightarrow> string \<Rightarrow> Topic" where
  \<comment> \<open>the row \<^verbatim>\<open>get_or_create\<close> inserts for a new name: \<^verbatim>\<open>Topic(name=s)\<close> after \<^verbatim>\<open>save\<close>\<close>
  "saved_Topic st s =
     \<lparr>pk = Some (next_pk st), name = s, wildcard = is_wildcard (new_Topic s),
      dollar = is_dollar (new_Topic s)\<rparr>"

definition recomputed :: "Topic \<Rightarrow> Topic" where
  \<comment> \<open>the instance after the two assignments of \<^verbatim>\<open>Topic.save\<close>\<close>
  "recomputed self = self\<lparr>wildcard := is_wildcard self, dollar := is_dollar self\<rparr>"

definition rule_covers :: "store \<Rightarrow> ACL \<Rightarrow> Topic \<Rightarrow> bool" where
  \<comment> \<open>\<^verbatim>\<open>topic in candidate.topic\<close>, as a truth value\<close>
  "rule_covers st r t = (case ACL_topic st r of Inl e \<Rightarrow> False | Inr ft \<Rightarrow> covers ft t)"

definition rule_topic_covers :: "store \<Rightarrow> ACL \<Rightarrow> ACL \<Rightarrow> bool" where
  \<comment> \<open>the topic of \<open>r\<close> covers the topic of \<open>r'\<close>\<close>
  "rule_topic_covers st r r' =
     (case ACL_topic st r' of Inl e \<Rightarrow> False | Inr t \<Rightarrow> rule_covers st r t)"

definition covering_candidates :: "store \<Rightarrow> Topic \<Rightarrow> int \<Rightarrow> ACL list" where
  \<comment> \<open>the list \<^verbatim>\<open>candidates\<close> that the loop of \<^verbatim>\<open>get_acl\<close> builds\<close>
  "covering_candidates st t a = filter (\<lambda>r. rule_covers st r t) (wildcard_rules st a)"

definition example_store :: store where
  \<comment> \<open>rules on \<^verbatim>\<open>a/#\<close> (allow) and \<^verbatim>\<open>a/b\<close> (deny) for subscribe\<close>
  "example_store =
     \<lparr>topics = [\<lparr>pk = Some 1, name = ''a/#'', wildcard = True, dollar = False\<rparr>,
                \<lparr>pk = Some 2, name = ''a/b'', wildcard = False, dollar = False\<rparr>],
      acls = [\<lparr>acl_pk = 1, allow = True, topic_id = 1, acc = 1, users = [], groups = [], password = None\<rparr>,
              \<lparr>acl_pk = 2, allow = False, topic_id = 2, acc = 1, users = [], groups = [], password = None\<rparr>]\<rparr>"

definition cross_store :: store where
  \<comment> \<open>rules on the incomparable filters \<^verbatim>\<open>a/+\<close> and \<^verbatim>\<open>+/b\<close>, and the topic \<^verbatim>\<open>a/b\<close>\<close>
  "cross_store =
     \<lparr>topics = [\<lparr>pk = Some 1, name = ''a/+'', wildcard = True, dollar = False\<rparr>,
                \<lparr>pk = Some 2, name = ''+/b'', wildcard = True, dollar = False\<rparr>,
                \<lparr>pk = Some 3, name = ''a/b'', wildcard = False, dollar = False\<rparr>],
      acls = [\<lparr>acl_pk = 1, allow = True, topic_id = 1, acc = 2, users = [], groups = [], password = None\<rparr>,
              \<lparr>acl_pk = 2, allow = False, topic_id = 2, acc = 2, users = [], groups = [], password = None\<rparr>]\<rparr>"

definition lt_rule :: "store \<Rightarrow> ACL \<Rightarrow> ACL \<Rightarrow> bool" where
  \<comment> \<open>\<^verbatim>\<open>x < m\<close> on rules, as a truth value\<close>
  "lt_rule st x m = (ACL_lt st x m = Inr True)"

definition chain_store :: store where
  \<comment> \<open>rules on \<^verbatim>\<open>#\<close>, \<^verbatim>\<open>a/+\<close> and \<^verbatim>\<open>a/#\<close>, in that order\<close>
  "chain_store =
     \<lparr>topics = [\<lparr>pk = Some 1, name = ''#'', wildcard = True, dollar = False\<rparr>,
                \<lparr>pk = Some 2, name = ''a/+'', wildcard = True, dollar = False\<rparr>,
                \<lparr>pk = Some 3, name = ''a/#'', wildcard = True, dollar = False\<rparr>],
      acls = [\<lparr>acl_pk = 1, allow = False, topic_id = 1, acc = 2, users = [], groups = [], password = None\<rparr>,
              \<lparr>acl_pk = 2, allow = True, topic_id = 2, acc = 2, users = [], groups = [], password = None\<rparr>,
              \<lparr>acl_pk = 3, allow = False, topic_id = 3, acc = 2, users = [], groups = [], password = None\<rparr>]\<rparr>"


text \<open>
  Three functions for the proofs about the candidate index: \<open>join\<close> is \<^verbatim>\<open>sep.join(parts)\<close>,
  \<open>weave\<close> concatenates pieces with one filler between neighbours, and \<open>stem\<close> rebuilds
  from the segments of a filter its name without the final \<^verbatim>\<open>#\<close>.
\<close>

fun join :: "char \<Rightarrow> string list \<Rightarrow> string" where
  "join c [] = []"
| "join c [p] = p"
| "join c (p # q # ps) = p @ c # join c (q # ps)"

fun weave :: "string list \<Rightarrow> string list \<Rightarrow> string" where
  "weave [] xs = []"
| "weave [p] xs = p"
| "weave (p # q # ps) [] = p @ weave (q # ps) []"
| "weave (p # q # ps) (x # xs) = p @ x @ weave (q # ps) xs"

fun stem :: "string list \<Rightarrow> string" where
  "stem [] = []"
| "stem [f] = (if f = [WILDCARD_MULTI_LEVEL] then [] else f)"
| "stem (f # g # fs) = f @ TOPIC_SEP # stem (g # fs)"

definition cand_topic :: "Topic \<Rightarrow> string" where
  \<comment> \<open>the local \<^verbatim>\<open>topic\<close> of \<^verbatim>\<open>get_candidates\<close>: the name without a final \<^verbatim>\<open>#\<close>\<close>
  "cand_topic self =
     (if endswith (name self) [WILDCARD_MULTI_LEVEL] then butlast (name self) else name self)"

definition prefilter :: "Topic \<Rightarrow> Topic \<Rightarrow> bool" where
  \<comment> \<open>the conditions on a stored name that \<^verbatim>\<open>get_candidates\<close> adds to the two flag
      tests, branch by branch\<close>
  "prefilter self t =
     (let multi = endswith (name self) [WILDCARD_MULTI_LEVEL];
          topic = cand_topic self;
          parts = split WILDCARD_SINGLE_LEVEL topic
      in if length parts = 1 then (length topic \<noteq> 0 \<longrightarrow> startswith (name t) topic)
         else if topic = [WILDCARD_SINGLE_LEVEL] then \<not> str_contains (name t) [TOPIC_SEP]
         else startswith (name t) (hd parts)
              \<and> (if multi then str_contains (name t) (last parts)
                  else endswith (name t) (last parts))
              \<and> (\<forall>part \<in> set (butlast (tl parts)). str_contains (name t) part))"

definition index_store :: store where
  \<comment> \<open>six topics, one of them the filter \<^verbatim>\<open>a/+/c\<close> itself\<close>
  "index_store =
     \<lparr>topics = [\<lparr>pk = Some 1, name = ''a/b/c'', wildcard = False, dollar = False\<rparr>,
                \<lparr>pk = Some 2, name = ''a/c'', wildcard = False, dollar = False\<rparr>,
                \<lparr>pk = Some 3, name = ''a/x/c'', wildcard = False, dollar = False\<rparr>,
                \<lparr>pk = Some 4, name = ''a/b/b/c'', wildcard = False, dollar = False\<rparr>,
                \<lparr>pk = Some 5, name = ''$SYS/x/c'', wildcard = False, dollar = True\<rparr>,
                \<lparr>pk = Some 6, name = ''a/+/c'', wildcard = True, dollar = False\<rparr>],
      acls = []\<rparr>"


section \<open>Basic facts\<close>

lemma split_not_Nil: "split c s \<noteq> []"
  by (induction s) (auto split: list.splits)

lemma length_split_pos: "0 < length (split c s)"
  using split_not_Nil by blast

lemma walk_total: "length ps \<le> length cs \<Longrightarrow> \<exists>b. walk ps cs w = Some b"
  by (induction ps cs w rule: walk.induct) auto

lemma Topic_contains_total: "\<exists>b. Topic_contains self item = Inr b"
proof -
  have "\<exists>b. walk (split TOPIC_SEP (name self)) (split TOPIC_SEP (name item)) (is_wildcard item) = Some b"
    if "\<not> length (split TOPIC_SEP (name item)) < length (split TOPIC_SEP (name self))"
    using that by (intro walk_total) simp
  then show ?thesis
    unfolding Topic_contains_def Let_def by (auto split: option.splits)
qed

lemma Topic_contains_covers: "Topic_contains self item = Inr (covers self item)"
  using Topic_contains_total [of self item] by (auto simp: covers_def)

lemmas const_defs = TOPIC_SEP_def WILDCARD_MULTI_LEVEL_def WILDCARD_SINGLE_LEVEL_def TOPIC_BEGINNING_DOLLAR_def
lemmas topic_defs = covers_def Topic_contains_def new_Topic_def truthy_def Topic_len_def Topic_eq_def
  is_wildcard_def is_dollar_def startswith_def endswith_def

lemma covers_name_cong:
  "name f = name f' \<Longrightarrow> name t = name t' \<Longrightarrow> covers f t = covers f' t'"
  unfolding topic_defs Let_def by simp

lemma split_no_sep: "c \<notin> set s \<Longrightarrow> split c s = [s]"
  by (induction s) auto

lemma length_split: "length (split c s) = Suc (length (filter (\<lambda>x. x = c) s))"
  by (induction s) (auto split: list.splits)

lemma length_split_one: "length (split c s) = 1 \<longleftrightarrow> c \<notin> set s"
  by (auto simp: length_split filter_empty_conv)

lemma concat_split: "concat (split c s) = filter (\<lambda>x. x \<noteq> c) s"
  by (induction s) (auto split: list.splits)

lemma split_parts_subset: "p \<in> set (split c s) \<Longrightarrow> set p \<subseteq> set s"
proof -
  assume "p \<in> set (split c s)"
  then have "set p \<subseteq> set (concat (split c s))" by auto
  then show ?thesis by (auto simp: concat_split)
qed

lemma split_parts_no_sep: "p \<in> set (split c s) \<Longrightarrow> c \<notin> set p"
proof -
  assume "p \<in> set (split c s)"
  then have "set p \<subseteq> set (concat (split c s))" by auto
  then show ?thesis by (auto simp: concat_split)
qed

section \<open>Claims on the covering predicate\<close>

text \<open>
  The sentence of claim C2 as it is written fails: the guard on the number of segments
  makes \<^verbatim>\<open>a/#\<close> reject \<^verbatim>\<open>a\<close>, whose one segment is fewer than the filter's two.
\<close>

theorem C2_counterexample:
  "\<not> (covers (new_Topic ''a/#'') (new_Topic ''a'')
      \<and> covers (new_Topic ''a/#'') (new_Topic ''a/b'')
      \<and> covers (new_Topic ''a/#'') (new_Topic ''a/b/c'')
      \<and> \<not> covers (new_Topic ''a/#'') (new_Topic ''b/a''))"
  by (simp add: topic_defs const_defs)

text \<open>
  Claim C2, amended: the filter \<^verbatim>\<open>a/#\<close> covers \<^verbatim>\<open>a/b\<close> and \<^verbatim>\<open>a/b/c\<close>, and covers
  neither \<^verbatim>\<open>a\<close> nor \<^verbatim>\<open>b/a\<close>.
\<close>

theorem C2_amended:
  "covers (new_Topic ''a/#'') (new_Topic ''a/b'')
   \<and> covers (new_Topic ''a/#'') (new_Topic ''a/b/c'')
   \<and> \<not> covers (new_Topic ''a/#'') (new_Topic ''a'')
   \<and> \<not> covers (new_Topic ''a/#'') (new_Topic ''b/a'')"
  by (simp add: topic_defs const_defs suffix_def)

lemma hash_covers: "name f = [WILDCARD_MULTI_LEVEL] \<Longrightarrow> name t \<noteq> [] \<Longrightarrow> \<not> is_dollar t \<Longrightarrow> covers f t"
  using split_not_Nil[of TOPIC_SEP "name t"]
  apply (cases "split TOPIC_SEP (name t)")
  apply (auto simp add: topic_defs const_defs Let_def  split: option.splits)
  done

lemma dollar_mismatch: "is_dollar f \<noteq> is_dollar t \<Longrightarrow> \<not> covers f t"
  by (auto simp add: covers_def Topic_contains_def Topic_eq_def is_dollar_def)


text \<open>
  Claim C4: the filter \<^verbatim>\<open>#\<close> covers every topic (a non-empty name) that is not
  dollar-prefixed, whatever its number of segments; a filter and a topic of which exactly
  one is dollar-prefixed are never in the covering relation; in particular \<^verbatim>\<open>#\<close> does
  not cover \<^verbatim>\<open>$SYS/x\<close>.
\<close>

theorem C4:
  "(name f = [WILDCARD_MULTI_LEVEL] \<and> name t \<noteq> [] \<and> \<not> is_dollar t \<longrightarrow> covers f t)
   \<and> (is_dollar f' \<noteq> is_dollar t' \<longrightarrow> \<not> covers f' t')
   \<and> \<not> covers (new_Topic ''#'') (new_Topic ''$SYS/x'')"
proof (intro conjI impI)
  show "\<not> covers (new_Topic ''#'') (new_Topic ''$SYS/x'')"
    by (rule dollar_mismatch) (simp add: is_dollar_def startswith_def new_Topic_def const_defs)
qed (auto simp: hash_covers dollar_mismatch)

theorem C4_witness:
  "covers (new_Topic ''#'') (new_Topic ''a/b/c'')
   \<and> \<not> covers (new_Topic ''$SYS/#'') (new_Topic ''a/b'')"
  using C4 [of "new_Topic ''#''" "new_Topic ''a/b/c''" "new_Topic ''$SYS/#''" "new_Topic ''a/b''"]
  by (simp add: is_dollar_def startswith_def new_Topic_def const_defs)

lemma plus_covers:
  assumes "name f = [WILDCARD_SINGLE_LEVEL]"
  shows "covers f t \<longleftrightarrow>
           (name t \<noteq> [] \<and> TOPIC_SEP \<notin> set (name t) \<and> \<not> is_dollar t
            \<and> name t \<noteq> [WILDCARD_MULTI_LEVEL])"
proof (cases "TOPIC_SEP \<in> set (name t)")
  case True
  then have "filter (\<lambda>x. x = TOPIC_SEP) (name t) \<noteq> []"
    by (simp add: filter_empty_conv)
  then have "1 < length (split TOPIC_SEP (name t))"
    by (simp add: length_split)
  moreover have "split TOPIC_SEP (name f) = [name f]"
    by (rule split_no_sep) (simp add: assms const_defs)
  moreover have "name f \<noteq> name t"
  proof
    assume "name f = name t"
    then have "TOPIC_SEP \<in> set [WILDCARD_SINGLE_LEVEL]" using True assms by simp
    then show False by (simp add: const_defs)
  qed
  moreover have "\<not> suffix [WILDCARD_MULTI_LEVEL] [WILDCARD_SINGLE_LEVEL]"
    by (simp add: suffix_def const_defs)
  ultimately show ?thesis using True assms
    unfolding topic_defs Let_def by auto
next
  case False
  show ?thesis
  proof (cases "name t = [WILDCARD_SINGLE_LEVEL]")
    case True
    then show ?thesis using assms
      unfolding topic_defs by (simp add: const_defs)
  next
    case ne: False
    have "split TOPIC_SEP (name t) = [name t]" using False by (rule split_no_sep)
    moreover have "split TOPIC_SEP (name f) = [name f]"
      by (rule split_no_sep) (simp add: assms const_defs)
    ultimately show ?thesis using False assms ne
      unfolding topic_defs Let_def by (auto simp: const_defs)
  qed
qed

lemma walk_plus_hash:
  "i < length ps \<Longrightarrow> i < length cs \<Longrightarrow> ps ! i = [WILDCARD_SINGLE_LEVEL]
   \<Longrightarrow> cs ! i = [WILDCARD_MULTI_LEVEL] \<Longrightarrow> [WILDCARD_MULTI_LEVEL] \<notin> set (take i ps)
   \<Longrightarrow> walk ps cs True \<noteq> Some True"
proof (induction ps cs "True" arbitrary: i rule: walk.induct)
  case (3 part ps compare cs)
  show ?case
  proof (cases i)
    case 0
    with 3 show ?thesis by simp
  next
    case (Suc j)
    with 3 show ?thesis by (auto simp: const_defs)
  qed
qed simp_all

lemma plus_not_hash:
  assumes "i < length (split TOPIC_SEP (name f))" "i < length (split TOPIC_SEP (name t))"
    and "split TOPIC_SEP (name f) ! i = [WILDCARD_SINGLE_LEVEL]"
    and "split TOPIC_SEP (name t) ! i = [WILDCARD_MULTI_LEVEL]"
    and "[WILDCARD_MULTI_LEVEL] \<notin> set (take i (split TOPIC_SEP (name f)))"
  shows "\<not> covers f t"
proof -
  have "[WILDCARD_MULTI_LEVEL] \<in> set (split TOPIC_SEP (name t))"
    using assms(2,4) nth_mem by fastforce
  then have w: "is_wildcard t"
    using split_parts_subset [of "[WILDCARD_MULTI_LEVEL]" TOPIC_SEP "name t"]
    by (simp add: is_wildcard_def)
  have ne: "name f \<noteq> name t" using assms(3,4) by (auto simp: const_defs)
  have "walk (split TOPIC_SEP (name f)) (split TOPIC_SEP (name t)) True \<noteq> Some True"
    using assms by (intro walk_plus_hash)
  then show ?thesis using w ne
    unfolding covers_def Topic_contains_def Let_def Topic_eq_def
    by (auto split: option.splits)
qed

text \<open>
  The first sentence of claim C5 as it is written fails on a dollar topic of one segment.
\<close>

theorem C5_counterexample:
  "TOPIC_SEP \<notin> set ''$SYS'' \<and> length (split TOPIC_SEP ''$SYS'') = 1
   \<and> \<not> covers (new_Topic ''+'') (new_Topic ''$SYS'')"
  by (simp add: topic_defs const_defs)

text \<open>
  Claim C5, amended: the filter \<^verbatim>\<open>+\<close> covers exactly the topics of one segment (a
  non-empty name without separator) that are not dollar-prefixed and are not the bare
  \<^verbatim>\<open>#\<close>; \<^verbatim>\<open>a/+/c\<close> covers \<^verbatim>\<open>a/b/c\<close> and covers neither \<^verbatim>\<open>a/b/b/c\<close> nor \<^verbatim>\<open>a/c\<close>; and a
  filter whose segment \<open>i\<close> is \<^verbatim>\<open>+\<close>, with no \<^verbatim>\<open>#\<close> segment before it, does not cover a
  topic whose segment \<open>i\<close> is \<^verbatim>\<open>#\<close>.
\<close>

theorem C5_amended:
  "(name f = [WILDCARD_SINGLE_LEVEL] \<longrightarrow>
      covers f t = (name t \<noteq> [] \<and> TOPIC_SEP \<notin> set (name t) \<and> \<not> is_dollar t
                    \<and> name t \<noteq> [WILDCARD_MULTI_LEVEL]))
   \<and> covers (new_Topic ''a/+/c'') (new_Topic ''a/b/c'')
   \<and> \<not> covers (new_Topic ''a/+/c'') (new_Topic ''a/b/b/c'')
   \<and> \<not> covers (new_Topic ''a/+/c'') (new_Topic ''a/c'')
   \<and> (i < length (split TOPIC_SEP (name g)) \<and> i < length (split TOPIC_SEP (name u))
        \<and> split TOPIC_SEP (name g) ! i = [WILDCARD_SINGLE_LEVEL]
        \<and> split TOPIC_SEP (name u) ! i = [WILDCARD_MULTI_LEVEL]
        \<and> [WILDCARD_MULTI_LEVEL] \<notin> set (take i (split TOPIC_SEP (name g)))
      \<longrightarrow> \<not> covers g u)"
proof (intro conjI impI)
  show "covers (new_Topic ''a/+/c'') (new_Topic ''a/b/c'')"
    by (simp add: topic_defs const_defs suffix_def)
  show "\<not> covers (new_Topic ''a/+/c'') (new_Topic ''a/b/b/c'')"
    by (simp add: topic_defs const_defs suffix_def)
  show "\<not> covers (new_Topic ''a/+/c'') (new_Topic ''a/c'')"
    by (simp add: topic_defs const_defs suffix_def)
qed (auto simp: plus_covers plus_not_hash)

theorem C5_amended_witness:
  "covers (new_Topic ''+'') (new_Topic ''abc'')
   \<and> \<not> covers (new_Topic ''+'') (new_Topic ''a/b'')
   \<and> \<not> covers (new_Topic ''a/+'') (new_Topic ''a/#'')"
  using C5_amended [of "new_Topic ''+''" "new_Topic ''abc''" 1 "new_Topic ''a/+''" "new_Topic ''a/#''"]
    C5_amended [of "new_Topic ''+''" "new_Topic ''a/b''" 1 "new_Topic ''a/+''" "new_Topic ''a/#''"]
  by (simp add: new_Topic_def const_defs is_dollar_def startswith_def)

section \<open>Claims on permission evaluation\<close>

text \<open>
  Claim C7: for a rule whose principal set (users and groups) is not empty and whose secret
  is unset, a supplied principal who belongs to the set by user key or by a shared group
  gets \<open>allow\<close>, a supplied principal who does not belong gets its negation, and no
  principal gets a denial.
\<close>

theorem C7:
  "\<not> (users r = [] \<and> groups r = []) \<and> \<not> str_truthy (password r) \<longrightarrow>
     has_permission chk r (Some u) pw
       = (if user_in u (users r) \<or> group_in u (groups r) then allow r else \<not> allow r)
     \<and> has_permission chk r None pw = False"
  by (auto simp: has_permission_def is_public_def)

theorem C7_witness:
  "has_permission (\<lambda>raw h. False)
     \<lparr>acl_pk = 1, allow = True, topic_id = 1, acc = 1, users = [42], groups = [], password = None\<rparr>
     (Some \<lparr>user_pk = Some 7, is_anonymous = False, user_groups = []\<rparr>) None = False
   \<and> has_permission (\<lambda>raw h. False)
     \<lparr>acl_pk = 1, allow = True, topic_id = 1, acc = 1, users = [42], groups = [], password = None\<rparr>
     None None = False"
  using C7 [of "\<lparr>acl_pk = 1, allow = True, topic_id = 1, acc = 1, users = [42], groups = [], password = None\<rparr>"
               "\<lambda>raw h. False" "\<lparr>user_pk = Some 7, is_anonymous = False, user_groups = []\<rparr>" None]
  by (simp add: str_truthy_def user_in_def group_in_def)

lemma Model_save_acls: "Model_save st t uf = Inr (st', t') \<Longrightarrow> acls st' = acls st"
  by (auto simp: Model_save_def Let_def split: option.splits list.splits if_splits)

lemma Topic_save_acls: "Topic_save V st t uf = Inr (st', t') \<Longrightarrow> acls st' = acls st"
  by (auto simp: Topic_save_def SecureSave_save_def Let_def dest: Model_save_acls split: if_splits)

lemma get_or_create_acls: "get_or_create V st s = Inr (st', t, n) \<Longrightarrow> acls st' = acls st"
  by (auto simp: get_or_create_def dest: Topic_save_acls split: sum.splits error.splits)

lemma resolve_no_rules: "acls st = [] \<Longrightarrow> resolve st t a = Inr None"
  by (simp add: resolve_def ACL_objects_get_def wildcard_rules_def)

lemma get_default_denied:
  assumes "MQTT_ACL_ALLOW S = Some False" "MQTT_ACL_ALLOW_ANONIMOUS S = Some False"
    and "user = None \<or> (\<exists>u. user = Some u \<and> is_anonymous u)" "\<not> str_truthy pw"
  shows "get_default S chk st a user pw = Inr False"
  using assms by (auto simp: get_default_def)

lemma filter_distinct_map_le1:
  "distinct (map f xs) \<Longrightarrow> length (filter (\<lambda>x. f x = y) xs) \<le> 1"
proof (induction xs)
  case Nil then show ?case by simp
next
  case (Cons x xs)
  show ?case
  proof (cases "f x = y")
    case True
    have "\<And>z. z \<in> set xs \<Longrightarrow> f z \<noteq> f x"
      using Cons.prems by (metis distinct.simps(2) imageI list.simps(9) set_map)
    with True have "filter (\<lambda>x. f x = y) xs = []"
      by (simp add: filter_empty_conv)
    with True show ?thesis by simp
  next
    case False
    with Cons show ?thesis by simp
  qed
qed

lemma Topic_objects_get_Inr:
  "Topic_objects_get st s = Inr t \<Longrightarrow> t \<in> set (topics st) \<and> name t = s"
proof -
  assume a: "Topic_objects_get st s = Inr t"
  then have "filter (\<lambda>t. name t = s) (topics st) = [t]"
    by (auto simp: Topic_objects_get_def split: list.splits)
  then have "t \<in> set (filter (\<lambda>t. name t = s) (topics st))" by simp
  then show ?thesis by simp
qed

lemma Topic_objects_get_missing:
  "(Topic_objects_get st s = Inl TopicDoesNotExist) = (s \<notin> name ` set (topics st))"
proof -
  have e: "(filter (\<lambda>t. name t = s) (topics st) = []) = (s \<notin> name ` set (topics st))"
    by (auto simp: filter_empty_conv)
  show ?thesis unfolding Topic_objects_get_def using e
    by (cases "filter (\<lambda>t. name t = s) (topics st)") (auto split: list.splits)
qed

lemma Topic_objects_get_distinct:
  assumes "distinct (map name (topics st))"
  shows "Topic_objects_get st s = Inl TopicDoesNotExist \<or> (\<exists>t. Topic_objects_get st s = Inr t)"
proof -
  have "length (filter (\<lambda>t. name t = s) (topics st)) \<le> 1"
    using assms by (rule filter_distinct_map_le1)
  then show ?thesis
    by (cases "filter (\<lambda>t. name t = s) (topics st)")
       (auto simp: Topic_objects_get_def split: list.splits)
qed

lemma is_dollar_name: "name t = name t' \<Longrightarrow> is_dollar t = is_dollar t'"
  by (simp add: is_dollar_def)

lemma is_wildcard_name: "name t = name t' \<Longrightarrow> is_wildcard t = is_wildcard t'"
  by (simp add: is_wildcard_def)

lemma Topic_save_new:
  assumes "s \<notin> name ` set (topics st)" "s \<noteq> []" "length s \<le> 1024" "V s"
  shows "Topic_save V st (new_Topic s) None
           = Inr (st\<lparr>topics := topics st @ [saved_Topic st s]\<rparr>, saved_Topic st s)"
proof -
  have "\<not> list_ex (\<lambda>r. name r = s \<and> pk r \<noteq> None) (topics st)"
    using assms(1) by (auto simp: list_ex_iff)
  then show ?thesis using assms(2-4)
    by (simp add: Topic_save_def SecureSave_save_def full_clean_def Model_save_def not_fields_def
        new_Topic_def saved_Topic_def Let_def is_dollar_def is_wildcard_def)
qed

lemma Topic_save_invalid:
  assumes "s = [] \<or> \<not> length s \<le> 1024 \<or> \<not> V s"
  shows "Topic_save V st (new_Topic s) None = Inl ValidationError"
  using assms
  by (auto simp add: Topic_save_def SecureSave_save_def full_clean_def not_fields_def
        new_Topic_def Let_def)

lemma get_or_create_existing:
  "Topic_objects_get st s = Inr t \<Longrightarrow> get_or_create V st s = Inr (st, t, False)"
  by (simp add: get_or_create_def)

lemma get_or_create_new:
  assumes "s \<notin> name ` set (topics st)" "s \<noteq> []" "length s \<le> 1024" "V s"
  shows "get_or_create V st s
           = Inr (st\<lparr>topics := topics st @ [saved_Topic st s]\<rparr>, saved_Topic st s, True)"
  using assms Topic_objects_get_missing [of st s]
  by (simp add: get_or_create_def Topic_save_new)

lemma get_or_create_total:
  assumes "distinct (map name (topics st))" "s \<noteq> []" "length s \<le> 1024" "V s"
  shows "\<exists>st' t n. get_or_create V st s = Inr (st', t, n)"
proof (cases "s \<in> name ` set (topics st)")
  case True
  then have "Topic_objects_get st s \<noteq> Inl TopicDoesNotExist"
    by (simp add: Topic_objects_get_missing)
  then obtain t where "Topic_objects_get st s = Inr t"
    using Topic_objects_get_distinct [OF assms(1), of s] by auto
  then show ?thesis using get_or_create_existing by blast
next
  case False
  then show ?thesis using assms get_or_create_new [of s st V] by blast
qed

text \<open>
  Claim C8: with no rule in the store and both default flags false, an anonymous principal
  without secret is denied for every topic and access kind: resolution returns no rule
  (for a \<^verbatim>\<open>Topic\<close>, and for a name that passes validation), and the default policy is deny.
\<close>

theorem C8:
  "acls st = [] \<and> MQTT_ACL_ALLOW S = Some False \<and> MQTT_ACL_ALLOW_ANONIMOUS S = Some False
   \<and> (user = None \<or> (\<exists>u. user = Some u \<and> is_anonymous u)) \<and> \<not> str_truthy pw
   \<and> distinct (map name (topics st)) \<and> s \<noteq> [] \<and> length s \<le> 1024 \<and> V s
   \<longrightarrow> snd (get_acl V st (TTopic t) a) = Inr None
       \<and> snd (get_acl V st (TStr s) a) = Inr None
       \<and> get_default S chk st a user pw = Inr False"
proof (intro impI, elim conjE, intro conjI)
  assume h: "acls st = []" "distinct (map name (topics st))" "s \<noteq> []" "length s \<le> 1024" "V s"
  show "snd (get_acl V st (TTopic t) a) = Inr None"
    using h(1) by (simp add: get_acl_def resolve_no_rules)
  obtain st' t' n where g: "get_or_create V st s = Inr (st', t', n)"
    using get_or_create_total [of st s V] h by blast
  then have "acls st' = []" using h(1) get_or_create_acls by fastforce
  then show "snd (get_acl V st (TStr s) a) = Inr None"
    using g by (simp add: get_acl_def resolve_no_rules)
next
  assume "MQTT_ACL_ALLOW S = Some False" "MQTT_ACL_ALLOW_ANONIMOUS S = Some False"
    "user = None \<or> (\<exists>u. user = Some u \<and> is_anonymous u)" "\<not> str_truthy pw"
  then show "get_default S chk st a user pw = Inr False"
    by (rule get_default_denied)
qed

theorem C8_witness:
  "snd (get_acl topic_grammar \<lparr>topics = [], acls = []\<rparr> (TTopic (new_Topic ''a/b'')) 1) = Inr None
   \<and> snd (get_acl topic_grammar \<lparr>topics = [], acls = []\<rparr> (TStr ''a/b'') 1) = Inr None
   \<and> get_default \<lparr>MQTT_ACL_ALLOW = Some False, MQTT_ACL_ALLOW_ANONIMOUS = Some False\<rparr>
        (\<lambda>raw h. True) \<lparr>topics = [], acls = []\<rparr> 1 None None = Inr False"
  using C8 [of "\<lparr>topics = [], acls = []\<rparr>"
      "\<lparr>MQTT_ACL_ALLOW = Some False, MQTT_ACL_ALLOW_ANONIMOUS = Some False\<rparr>"
      None None "''a/b''" topic_grammar "new_Topic ''a/b''" 1 "\<lambda>raw h. True"]
  by (simp add: str_truthy_def topic_grammar_def TOPIC_SEP_def WILDCARD_MULTI_LEVEL_def
      WILDCARD_SINGLE_LEVEL_def)

lemma fold_max_ge: "(m::nat) \<le> fold max xs m"
  by (induction xs arbitrary: m) (auto intro: order_trans [OF max.cobounded2])

lemma fold_max_mem: "x \<in> set xs \<Longrightarrow> (x::nat) \<le> fold max xs m"
proof (induction xs arbitrary: m)
  case Nil then show ?case by simp
next
  case (Cons y ys)
  show ?case
  proof (cases "x = y")
    case True
    have "max y m \<le> fold max ys (max y m)" by (rule fold_max_ge)
    with True show ?thesis by simp
  next
    case False
    with Cons show ?thesis by simp
  qed
qed

lemma next_pk_fresh: "r \<in> set (topics st) \<Longrightarrow> pk r \<noteq> Some (next_pk st)"
proof
  assume r: "r \<in> set (topics st)" and p: "pk r = Some (next_pk st)"
  then have "next_pk st \<in> set (List.map_filter pk (topics st))"
    by (force simp: map_filter_def)
  then have "next_pk st \<le> fold max (List.map_filter pk (topics st)) 0"
    by (rule fold_max_mem)
  then show False by (simp add: next_pk_def)
qed

lemma Topic_save_None:
  "Topic_save V st self None =
     (if full_clean V st (recomputed self) then Model_save st (recomputed self) None
      else Inl ValidationError)"
  by (simp add: Topic_save_def SecureSave_save_def not_fields_def Let_def recomputed_def
      is_dollar_def)

lemma Model_save_None_row:
  "\<exists>st' t. Model_save st self None = Inr (st', t) \<and> t \<in> set (topics st')
      \<and> name t = name self \<and> wildcard t = wildcard self \<and> dollar t = dollar self
      \<and> (\<forall>r \<in> set (topics st'). pk r = pk t \<longrightarrow> r = t)"
proof (cases "pk self")
  case None
  then show ?thesis using next_pk_fresh [of _ st]
    by (auto simp: Model_save_def Let_def)
next
  case (Some i)
  then show ?thesis
    by (auto simp: Model_save_def Let_def list_ex_iff)
qed

section \<open>Claims on the store\<close>

text \<open>
  Claim C10: a save without \<^verbatim>\<open>update_fields\<close> that passes validation stores the topic
  with both flags recomputed from the name: the row of that key has \<open>wildcard\<close> equal to
  whether the name contains \<^verbatim>\<open>#\<close> or \<^verbatim>\<open>+\<close> and \<open>dollar\<close> equal to whether it starts with
  \<^verbatim>\<open>$\<close>; a save that fails validation raises and writes nothing.
\<close>

theorem C10:
  "(full_clean V st (recomputed self) \<longrightarrow>
      (\<exists>st' t. Topic_save V st self None = Inr (st', t)
         \<and> t \<in> set (topics st') \<and> name t = name self
         \<and> (\<forall>r \<in> set (topics st'). pk r = pk t \<longrightarrow>
               wildcard r = (WILDCARD_MULTI_LEVEL \<in> set (name r) \<or> WILDCARD_SINGLE_LEVEL \<in> set (name r))
               \<and> dollar r = startswith (name r) [TOPIC_BEGINNING_DOLLAR])))
   \<and> (\<not> full_clean V st (recomputed self) \<longrightarrow> Topic_save V st self None = Inl ValidationError)"
proof (intro conjI impI)
  assume fc: "full_clean V st (recomputed self)"
  obtain st' t where m: "Model_save st (recomputed self) None = Inr (st', t)"
    "t \<in> set (topics st')" "name t = name (recomputed self)"
    "wildcard t = wildcard (recomputed self)" "dollar t = dollar (recomputed self)"
    "\<forall>r \<in> set (topics st'). pk r = pk t \<longrightarrow> r = t"
    using Model_save_None_row [of st "recomputed self"] by blast
  have "wildcard t = (WILDCARD_MULTI_LEVEL \<in> set (name t) \<or> WILDCARD_SINGLE_LEVEL \<in> set (name t))"
    using m(3,4) by (simp add: recomputed_def is_wildcard_def)
  moreover have "dollar t = startswith (name t) [TOPIC_BEGINNING_DOLLAR]"
    using m(3,5) by (simp add: recomputed_def is_dollar_def)
  moreover have "name t = name self" using m(3) by (simp add: recomputed_def)
  ultimately show "\<exists>st' t. Topic_save V st self None = Inr (st', t)
         \<and> t \<in> set (topics st') \<and> name t = name self
         \<and> (\<forall>r \<in> set (topics st'). pk r = pk t \<longrightarrow>
               wildcard r = (WILDCARD_MULTI_LEVEL \<in> set (name r) \<or> WILDCARD_SINGLE_LEVEL \<in> set (name r))
               \<and> dollar r = startswith (name r) [TOPIC_BEGINNING_DOLLAR])"
    using fc m(1,2,6) by (auto simp: Topic_save_None)
next
  assume "\<not> full_clean V st (recomputed self)"
  then show "Topic_save V st self None = Inl ValidationError"
    by (simp add: Topic_save_None)
qed

theorem C10_witness:
  "Topic_save topic_grammar
      \<lparr>topics = [\<lparr>pk = Some 1, name = ''a/b'', wildcard = False, dollar = False\<rparr>], acls = []\<rparr>
      \<lparr>pk = Some 1, name = ''$SYS/#'', wildcard = False, dollar = False\<rparr> None
    = Inr (\<lparr>topics = [\<lparr>pk = Some 1, name = ''$SYS/#'', wildcard = True, dollar = True\<rparr>], acls = []\<rparr>,
           \<lparr>pk = Some 1, name = ''$SYS/#'', wildcard = True, dollar = True\<rparr>)"
proof -
  have fc: "full_clean topic_grammar
      \<lparr>topics = [\<lparr>pk = Some 1, name = ''a/b'', wildcard = False, dollar = False\<rparr>], acls = []\<rparr>
      (recomputed \<lparr>pk = Some 1, name = ''$SYS/#'', wildcard = False, dollar = False\<rparr>)"
    by (simp add: full_clean_def recomputed_def topic_grammar_def TOPIC_SEP_def
        WILDCARD_MULTI_LEVEL_def WILDCARD_SINGLE_LEVEL_def)
  from C10 [of topic_grammar
      "\<lparr>topics = [\<lparr>pk = Some 1, name = ''a/b'', wildcard = False, dollar = False\<rparr>], acls = []\<rparr>"
      "\<lparr>pk = Some 1, name = ''$SYS/#'', wildcard = False, dollar = False\<rparr>"] fc
  have "\<exists>st' t. Topic_save topic_grammar
      \<lparr>topics = [\<lparr>pk = Some 1, name = ''a/b'', wildcard = False, dollar = False\<rparr>], acls = []\<rparr>
      \<lparr>pk = Some 1, name = ''$SYS/#'', wildcard = False, dollar = False\<rparr> None = Inr (st', t)"
    by blast
  then show ?thesis
    by (simp add: Topic_save_def SecureSave_save_def full_clean_def Model_save_def not_fields_def
        Let_def is_dollar_def is_wildcard_def startswith_def TOPIC_BEGINNING_DOLLAR_def
        WILDCARD_MULTI_LEVEL_def WILDCARD_SINGLE_LEVEL_def topic_grammar_def TOPIC_SEP_def)
qed

lemma get_acl_fst_str:
  "fst (get_acl V st (TStr s) a)
     = (case get_or_create V st s of Inl e \<Rightarrow> st | Inr (st', t, n) \<Rightarrow> st')"
  by (simp add: get_acl_def split: sum.splits prod.splits)

lemma get_acl_fst_bytes:
  "fst (get_acl V st (TBytes s) a)
     = (case get_or_create V st s of Inl e \<Rightarrow> st | Inr (st', t, n) \<Rightarrow> st')"
  by (simp add: get_acl_def split: sum.splits prod.splits)

lemma get_or_create_store:
  "(case get_or_create V st s of Inl e \<Rightarrow> st | Inr (st', t, n) \<Rightarrow> st')
     = (if s \<notin> name ` set (topics st) \<and> s \<noteq> [] \<and> length s \<le> 1024 \<and> V s
        then st\<lparr>topics := topics st @ [saved_Topic st s]\<rparr> else st)"
proof (cases "s \<in> name ` set (topics st)")
  case True
  then have "Topic_objects_get st s \<noteq> Inl TopicDoesNotExist"
    by (simp add: Topic_objects_get_missing)
  with True show ?thesis
    by (auto simp: get_or_create_def split: sum.splits error.splits)
next
  case False
  then have m: "Topic_objects_get st s = Inl TopicDoesNotExist"
    by (simp add: Topic_objects_get_missing)
  show ?thesis
  proof (cases "s = [] \<or> \<not> length s \<le> 1024 \<or> \<not> V s")
    case True
    then have "Topic_save V st (new_Topic s) None = Inl ValidationError"
      by (rule Topic_save_invalid)
    with m True show ?thesis by (auto simp: get_or_create_def)
  next
    case v: False
    then have "get_or_create V st s
         = Inr (st\<lparr>topics := topics st @ [saved_Topic st s]\<rparr>, saved_Topic st s, True)"
      using False by (intro get_or_create_new) auto
    with v False show ?thesis by simp
  qed
qed

text \<open>
  Claim C3 as it is written fails: resolving a name that is not stored inserts a topic.
\<close>

theorem C3_counterexample:
  "topics (fst (get_acl topic_grammar \<lparr>topics = [], acls = []\<rparr> (TStr ''a'') 2))
     \<noteq> topics \<lparr>topics = [], acls = []\<rparr>"
  by (simp add: get_acl_fst_str get_or_create_store topic_grammar_def TOPIC_SEP_def
      WILDCARD_MULTI_LEVEL_def WILDCARD_SINGLE_LEVEL_def)

text \<open>
  Claim C3, amended: \<^verbatim>\<open>get_acl\<close> never changes the stored rules; it leaves the stored
  topics unchanged when the topic is given as a \<^verbatim>\<open>Topic\<close>, or as a string or bytes whose
  name is already stored or fails validation; for a string or bytes of a valid name that is
  not stored it inserts one topic row of that name.
\<close>

theorem C3_amended:
  "acls (fst (get_acl V st topic a)) = acls st
   \<and> topics (fst (get_acl V st (TTopic t) a)) = topics st
   \<and> (s \<in> name ` set (topics st) \<or> s = [] \<or> \<not> length s \<le> 1024 \<or> \<not> V s \<longrightarrow>
        fst (get_acl V st (TStr s) a) = st \<and> fst (get_acl V st (TBytes s) a) = st)
   \<and> (s \<notin> name ` set (topics st) \<and> s \<noteq> [] \<and> length s \<le> 1024 \<and> V s \<longrightarrow>
        topics (fst (get_acl V st (TStr s) a)) = topics st @ [saved_Topic st s]
        \<and> topics (fst (get_acl V st (TBytes s) a)) = topics st @ [saved_Topic st s])"
proof (intro conjI impI)
  show "acls (fst (get_acl V st topic a)) = acls st"
  proof (cases topic)
    case (TStr x)
    then show ?thesis by (simp add: get_acl_fst_str get_or_create_store)
  next
    case (TBytes x)
    then show ?thesis by (simp add: get_acl_fst_bytes get_or_create_store)
  qed (simp_all add: get_acl_def)
  show "topics (fst (get_acl V st (TTopic t) a)) = topics st"
    by (simp add: get_acl_def)
qed (auto simp: get_acl_fst_str get_acl_fst_bytes get_or_create_store)

theorem C3_amended_witness:
  "fst (get_acl topic_grammar
         \<lparr>topics = [\<lparr>pk = Some 1, name = ''a'', wildcard = False, dollar = False\<rparr>], acls = []\<rparr>
         (TStr ''a'') 2)
     = \<lparr>topics = [\<lparr>pk = Some 1, name = ''a'', wildcard = False, dollar = False\<rparr>], acls = []\<rparr>
   \<and> topics (fst (get_acl topic_grammar \<lparr>topics = [], acls = []\<rparr> (TStr ''a'') 2))
       = [\<lparr>pk = Some 1, name = ''a'', wildcard = False, dollar = False\<rparr>]"
  using C3_amended [of topic_grammar
      "\<lparr>topics = [\<lparr>pk = Some 1, name = ''a'', wildcard = False, dollar = False\<rparr>], acls = []\<rparr>"
      "TStr ''a''" 2 "new_Topic ''a''" "''a''"]
    C3_amended [of topic_grammar "\<lparr>topics = [], acls = []\<rparr>" "TStr ''a''" 2 "new_Topic ''a''" "''a''"]
  by (simp add: topic_grammar_def TOPIC_SEP_def WILDCARD_MULTI_LEVEL_def WILDCARD_SINGLE_LEVEL_def
      saved_Topic_def next_pk_def map_filter_def is_wildcard_def is_dollar_def new_Topic_def
      startswith_def TOPIC_BEGINNING_DOLLAR_def)

lemma wildcard_rules_topic:
  "r \<in> set (wildcard_rules st a) \<Longrightarrow> \<exists>ft. ACL_topic st r = Inr ft"
  by (auto simp: wildcard_rules_def split: sum.splits)

lemma collect_filter:
  "(\<And>r. r \<in> set rs \<Longrightarrow> \<exists>ft. ACL_topic st r = Inr ft)
   \<Longrightarrow> collect st t rs = Inr (filter (\<lambda>r. rule_covers st r t) rs)"
proof (induction rs)
  case Nil then show ?case by simp
next
  case (Cons r rs)
  obtain ft where ft: "ACL_topic st r = Inr ft" using Cons.prems by auto
  have "collect st t rs = Inr (filter (\<lambda>r. rule_covers st r t) rs)"
    using Cons by simp
  then show ?case using ft
    by (simp add: Topic_contains_covers rule_covers_def)
qed

lemma collect_candidates:
  "collect st t (wildcard_rules st a) = Inr (covering_candidates st t a)"
  unfolding covering_candidates_def by (rule collect_filter) (rule wildcard_rules_topic)

lemma candidates_topic:
  "r \<in> set (covering_candidates st t a) \<Longrightarrow> \<exists>ft. ACL_topic st r = Inr ft"
  by (auto simp: covering_candidates_def dest: wildcard_rules_topic)

lemma is_wildcard_truthy: "is_wildcard t \<Longrightarrow> truthy t"
  by (auto simp: is_wildcard_def truthy_def Topic_len_def)

lemma Topic_lt_eq: "Topic_lt self other = Inr (is_wildcard other \<and> covers other self)"
  using is_wildcard_truthy [of other]
  by (auto simp: Topic_lt_def Topic_contains_covers)

lemma ACL_lt_eq:
  "ACL_topic st x = Inr tx \<Longrightarrow> ACL_topic st m = Inr tm
     \<Longrightarrow> ACL_lt st x m = Inr (lt_rule st x m)"
  by (auto simp: ACL_lt_def lt_rule_def Topic_lt_eq)

lemma min_loop_mem:
  "(\<And>r. r \<in> set (m # xs) \<Longrightarrow> \<exists>ft. ACL_topic st r = Inr ft)
   \<Longrightarrow> \<exists>r \<in> set (m # xs). min_loop st m xs = Inr r"
proof (induction xs arbitrary: m)
  case Nil then show ?case by simp
next
  case (Cons x xs)
  obtain tx tm where t: "ACL_topic st x = Inr tx" "ACL_topic st m = Inr tm"
    using Cons.prems by (meson list.set_intros)
  let ?m = "if lt_rule st x m then x else m"
  have sub: "set (?m # xs) \<subseteq> set (m # x # xs)" by auto
  have "\<exists>r \<in> set (?m # xs). min_loop st ?m xs = Inr r"
  proof (rule Cons.IH)
    fix r assume "r \<in> set (?m # xs)"
    then have "r \<in> set (m # x # xs)" using sub by blast
    then show "\<exists>ft. ACL_topic st r = Inr ft" by (rule Cons.prems)
  qed
  then obtain r where r: "r \<in> set (?m # xs)" "min_loop st ?m xs = Inr r" by blast
  then have "r \<in> set (m # x # xs)" using sub by blast
  moreover have "min_loop st m (x # xs) = Inr r" using r(2) ACL_lt_eq [OF t] by simp
  ultimately show ?case by blast
qed

lemma min_loop_least:
  assumes "\<And>r. r \<in> set (m # xs) \<Longrightarrow> \<exists>ft. ACL_topic st r = Inr ft"
    and "L \<in> set (m # xs)"
    and "\<And>r. r \<in> set (m # xs) \<Longrightarrow> r \<noteq> L \<Longrightarrow> lt_rule st L r \<and> \<not> lt_rule st r L"
  shows "min_loop st m xs = Inr L"
  using assms
proof (induction xs arbitrary: m)
  case Nil then show ?case by simp
next
  case (Cons x xs)
  obtain tx tm where t: "ACL_topic st x = Inr tx" "ACL_topic st m = Inr tm"
    using Cons.prems(1) by (meson list.set_intros)
  let ?m = "if lt_rule st x m then x else m"
  have L: "L \<in> set (?m # xs)"
  proof (cases "L = m")
    case True
    then show ?thesis using Cons.prems(3) [of x] by auto
  next
    case False
    then show ?thesis using Cons.prems(2) Cons.prems(3) [of m] by auto
  qed
  have sub: "set (?m # xs) \<subseteq> set (m # x # xs)" by auto
  have "min_loop st ?m xs = Inr L"
  proof (rule Cons.IH)
    fix r assume "r \<in> set (?m # xs)"
    then have "r \<in> set (m # x # xs)" using sub by blast
    then show "\<exists>ft. ACL_topic st r = Inr ft" by (rule Cons.prems(1))
  next
    show "L \<in> set (?m # xs)" by (rule L)
  next
    fix r assume "r \<in> set (?m # xs)" and ne: "r \<noteq> L"
    then have "r \<in> set (m # x # xs)" using sub by blast
    then show "lt_rule st L r \<and> \<not> lt_rule st r L" using ne by (rule Cons.prems(3))
  qed
  then show ?case using ACL_lt_eq [OF t] by simp
qed

lemma resolve_no_exact:
  "ACL_objects_get st t a = Inl ACLDoesNotExist \<Longrightarrow>
   resolve st t a =
     (case covering_candidates st t a of
        [] \<Rightarrow> Inr None
      | c # cs \<Rightarrow> (case min_loop st c cs of Inl e \<Rightarrow> Inl e | Inr r \<Rightarrow> Inr (Some r)))"
  by (simp add: resolve_def collect_candidates)


lemmas eval_defs = resolve_def ACL_objects_get_def wildcard_rules_def ACL_topic_def ACL_lt_def
  Topic_lt_def Topic_contains_def truthy_def Topic_len_def Topic_eq_def is_wildcard_def
  is_dollar_def startswith_def endswith_def suffix_def Let_def

lemma covers_cases: "covers f t \<Longrightarrow> name f = name t \<or> is_wildcard f"
  by (auto simp: covers_def Topic_contains_def Topic_eq_def split: if_splits)

lemma lt_rule_from_covers:
  assumes "ACL_topic st L = Inr tL" "ACL_topic st r = Inr tr"
    and "rule_topic_covers st r L" "\<not> rule_topic_covers st L r"
  shows "lt_rule st L r \<and> \<not> lt_rule st r L"
proof -
  have c: "covers tr tL" "\<not> covers tL tr"
    using assms by (simp_all add: rule_topic_covers_def rule_covers_def)
  have "is_wildcard tr"
  proof (rule ccontr)
    assume "\<not> is_wildcard tr"
    then have "name tr = name tL" using covers_cases [OF c(1)] by simp
    then have "covers tL tr = covers tr tL" by (intro covers_name_cong) simp_all
    then show False using c by simp
  qed
  then show ?thesis using assms(1,2) c
    by (simp add: lt_rule_def ACL_lt_def Topic_lt_eq)
qed

lemma ACL_objects_get_unique:
  assumes "distinct (map (\<lambda>r. (topic_id r, acc r)) (acls st))" "r \<in> set (acls st)"
    and "pk t = Some (topic_id r)"
  shows "ACL_objects_get st t (acc r) = Inr r"
proof -
  let ?P = "\<lambda>x. (topic_id x, acc x) = (topic_id r, acc r)"
  have le: "length (filter ?P (acls st)) \<le> 1"
    using assms(1) by (rule filter_distinct_map_le1)
  have mem: "r \<in> set (filter ?P (acls st))" using assms(2) by simp
  have "filter ?P (acls st) = [r]"
  proof (cases "filter ?P (acls st)")
    case Nil
    then have "set (filter ?P (acls st)) = {}" by (simp only: list.set)
    with mem show ?thesis by (metis empty_iff)
  next
    case (Cons x xs)
    with le have e: "xs = []" by simp
    have "set (filter ?P (acls st)) = {x}" by (simp only: Cons e list.set)
    with mem have "r = x" by (metis singletonD)
    with Cons e show ?thesis by simp
  qed
  moreover have "filter (\<lambda>x. Some (topic_id x) = pk t \<and> acc x = acc r) (acls st)
                 = filter ?P (acls st)"
    using assms(3) by (intro filter_cong) auto
  ultimately show ?thesis by (simp add: ACL_objects_get_def)
qed

lemma resolve_exact: "ACL_objects_get st t a = Inr r \<Longrightarrow> resolve st t a = Inr (Some r)"
  by (simp add: resolve_def)

section \<open>Claims on rule resolution\<close>

text \<open>
  Claim C6: when the store holds a rule keyed by the topic and the access kind, resolution
  returns that rule, whatever wildcard rules cover the topic; with rules on \<^verbatim>\<open>a/#\<close> (allow)
  and \<^verbatim>\<open>a/b\<close> (deny) for subscribe, resolving \<^verbatim>\<open>a/b\<close> returns the rule on \<^verbatim>\<open>a/b\<close> and
  resolving \<^verbatim>\<open>a/c\<close> returns the rule on \<^verbatim>\<open>a/#\<close>.
\<close>

theorem C6:
  "(distinct (map (\<lambda>r. (topic_id r, acc r)) (acls st)) \<and> r \<in> set (acls st)
      \<and> pk t = Some (topic_id r) \<longrightarrow>
        get_acl V st (TTopic t) (acc r) = (st, Inr (Some r))
        \<and> (Topic_objects_get st s = Inr t \<longrightarrow>
             get_acl V st (TStr s) (acc r) = (st, Inr (Some r))))
   \<and> get_acl topic_grammar example_store (TStr ''a/b'') PROTO_MQTT_ACC_SUS
       = (example_store, Inr (Some (acls example_store ! 1)))
   \<and> allow (acls example_store ! 1) = False
   \<and> snd (get_acl topic_grammar example_store (TStr ''a/c'') PROTO_MQTT_ACC_SUS)
       = Inr (Some (acls example_store ! 0))
   \<and> allow (acls example_store ! 0) = True"
proof (intro conjI impI)
  assume h: "distinct (map (\<lambda>r. (topic_id r, acc r)) (acls st)) \<and> r \<in> set (acls st)
      \<and> pk t = Some (topic_id r)"
  then have g: "ACL_objects_get st t (acc r) = Inr r"
    by (intro ACL_objects_get_unique) simp_all
  then show "get_acl V st (TTopic t) (acc r) = (st, Inr (Some r))"
    by (simp add: get_acl_def resolve_exact)
  assume "Topic_objects_get st s = Inr t"
  then show "get_acl V st (TStr s) (acc r) = (st, Inr (Some r))"
    using g by (simp add: get_acl_def get_or_create_existing resolve_exact)
next
  show "get_acl topic_grammar example_store (TStr ''a/b'') PROTO_MQTT_ACC_SUS
       = (example_store, Inr (Some (acls example_store ! 1)))"
    by (simp add: get_acl_def get_or_create_def Topic_objects_get_def example_store_def
        PROTO_MQTT_ACC_SUS_def resolve_def ACL_objects_get_def)
  show "snd (get_acl topic_grammar example_store (TStr ''a/c'') PROTO_MQTT_ACC_SUS)
       = Inr (Some (acls example_store ! 0))"
    by (simp add: get_acl_def get_or_create_def Topic_objects_get_def example_store_def
        PROTO_MQTT_ACC_SUS_def Topic_save_def SecureSave_save_def full_clean_def Model_save_def
        not_fields_def new_Topic_def next_pk_def map_filter_def topic_grammar_def
        eval_defs const_defs)
qed (simp_all add: example_store_def)

theorem C6_witness:
  "get_acl topic_grammar example_store
      (TTopic \<lparr>pk = Some 2, name = ''a/b'', wildcard = False, dollar = False\<rparr>) 1
     = (example_store, Inr (Some (acls example_store ! 1)))"
  using C6 [of example_store "acls example_store ! 1"
      "\<lparr>pk = Some 2, name = ''a/b'', wildcard = False, dollar = False\<rparr>" topic_grammar "''a/b''"]
  by (simp add: example_store_def)

text \<open>
  Claim C1 as it is written fails: the filters \<^verbatim>\<open>a/+\<close> and \<^verbatim>\<open>+/b\<close> both cover \<^verbatim>\<open>a/b\<close>
  and neither covers the other, so the returned rule is not covered by the other candidate.
\<close>

theorem C1_counterexample:
  "ACL_objects_get cross_store (topics cross_store ! 2) 2 = Inl ACLDoesNotExist
   \<and> covering_candidates cross_store (topics cross_store ! 2) 2 = acls cross_store
   \<and> get_acl topic_grammar cross_store (TTopic (topics cross_store ! 2)) 2
       = (cross_store, Inr (Some (acls cross_store ! 0)))
   \<and> acls cross_store ! 1 \<noteq> acls cross_store ! 0
   \<and> \<not> rule_topic_covers cross_store (acls cross_store ! 1) (acls cross_store ! 0)
   \<and> \<not> rule_topic_covers cross_store (acls cross_store ! 0) (acls cross_store ! 1)"
  by (simp add: cross_store_def get_acl_def covering_candidates_def rule_topic_covers_def
      rule_covers_def covers_def eval_defs const_defs)

text \<open>
  Claim C1, amended: when no exact rule exists and some stored wildcard rule covers the
  topic, resolution returns one of the covering candidates; and when a candidate's topic is
  covered by the topic of every other candidate and covers none of them, resolution returns
  that candidate.
\<close>

theorem C1_amended:
  "ACL_objects_get st t a = Inl ACLDoesNotExist \<and> covering_candidates st t a \<noteq> [] \<longrightarrow>
     (\<exists>R \<in> set (covering_candidates st t a). get_acl V st (TTopic t) a = (st, Inr (Some R)))
     \<and> (L \<in> set (covering_candidates st t a)
          \<and> (\<forall>R' \<in> set (covering_candidates st t a). R' \<noteq> L \<longrightarrow>
                rule_topic_covers st R' L \<and> \<not> rule_topic_covers st L R')
        \<longrightarrow> get_acl V st (TTopic t) a = (st, Inr (Some L)))"
proof (intro impI, elim conjE)
  assume ne: "ACL_objects_get st t a = Inl ACLDoesNotExist" and nz: "covering_candidates st t a \<noteq> []"
  then obtain c cs where cs: "covering_candidates st t a = c # cs"
    by (cases "covering_candidates st t a") auto
  have tp: "\<And>r. r \<in> set (c # cs) \<Longrightarrow> \<exists>ft. ACL_topic st r = Inr ft"
    using candidates_topic [of _ st t a] cs by simp
  have res: "resolve st t a = (case min_loop st c cs of Inl e \<Rightarrow> Inl e | Inr r \<Rightarrow> Inr (Some r))"
    using ne cs by (simp add: resolve_no_exact)
  have one: "\<exists>R \<in> set (covering_candidates st t a). get_acl V st (TTopic t) a = (st, Inr (Some R))"
  proof -
    obtain r where "r \<in> set (c # cs)" "min_loop st c cs = Inr r"
      using min_loop_mem [of c cs st] tp by blast
    then show ?thesis using res cs by (auto simp: get_acl_def)
  qed
  have two: "get_acl V st (TTopic t) a = (st, Inr (Some L))"
    if L: "L \<in> set (covering_candidates st t a)"
      and least: "\<forall>R' \<in> set (covering_candidates st t a). R' \<noteq> L \<longrightarrow>
                rule_topic_covers st R' L \<and> \<not> rule_topic_covers st L R'"
  proof -
    obtain tL where tL: "ACL_topic st L = Inr tL" using tp L cs by auto
    have "min_loop st c cs = Inr L"
    proof (rule min_loop_least)
      fix r assume "r \<in> set (c # cs)"
      then show "\<exists>ft. ACL_topic st r = Inr ft" by (rule tp)
    next
      show "L \<in> set (c # cs)" using L cs by simp
    next
      fix r assume r: "r \<in> set (c # cs)" and n: "r \<noteq> L"
      obtain tr where tr: "ACL_topic st r = Inr tr" using tp r by auto
      have "rule_topic_covers st r L \<and> \<not> rule_topic_covers st L r"
        using least r n unfolding cs by blast
      then show "lt_rule st L r \<and> \<not> lt_rule st r L"
        using lt_rule_from_covers [OF tL tr] by simp
    qed
    then show ?thesis using res by (simp add: get_acl_def)
  qed
  show "(\<exists>R \<in> set (covering_candidates st t a). get_acl V st (TTopic t) a = (st, Inr (Some R)))
     \<and> (L \<in> set (covering_candidates st t a)
          \<and> (\<forall>R' \<in> set (covering_candidates st t a). R' \<noteq> L \<longrightarrow>
                rule_topic_covers st R' L \<and> \<not> rule_topic_covers st L R')
        \<longrightarrow> get_acl V st (TTopic t) a = (st, Inr (Some L)))"
    using one two by blast
qed

theorem C1_amended_witness:
  "covering_candidates chain_store (new_Topic ''a/b'') 2 = acls chain_store
   \<and> get_acl topic_grammar chain_store (TTopic (new_Topic ''a/b'')) 2
        = (chain_store, Inr (Some (acls chain_store ! 1)))"
proof -
  have c: "covering_candidates chain_store (new_Topic ''a/b'') 2 = acls chain_store"
    by (simp add: chain_store_def covering_candidates_def rule_covers_def covers_def new_Topic_def
        eval_defs const_defs)
  have e: "ACL_objects_get chain_store (new_Topic ''a/b'') 2 = Inl ACLDoesNotExist"
    by (simp add: chain_store_def ACL_objects_get_def new_Topic_def)
  have l: "\<forall>R' \<in> set (acls chain_store). R' \<noteq> acls chain_store ! 1 \<longrightarrow>
             rule_topic_covers chain_store R' (acls chain_store ! 1)
             \<and> \<not> rule_topic_covers chain_store (acls chain_store ! 1) R'"
    by (simp add: chain_store_def rule_topic_covers_def rule_covers_def covers_def
        eval_defs const_defs)
  have m: "acls chain_store ! 1 \<in> set (acls chain_store)" by (simp add: chain_store_def)
  have n: "acls chain_store \<noteq> []" by (simp add: chain_store_def)
  show ?thesis
    using C1_amended [of chain_store "new_Topic ''a/b''" 2 topic_grammar "acls chain_store ! 1"]
      c e l m n by simp
qed

section \<open>Facts on splitting and joining\<close>

lemma join_Cons_Cons: "join c ((x # p) # ps) = x # join c (p # ps)"
  by (cases ps) simp_all

lemma join_split: "join c (split c s) = s"
proof (induction s)
  case Nil then show ?case by simp
next
  case (Cons x xs)
  obtain p ps where sp: "split c xs = p # ps"
    using split_not_Nil [of c xs] by (cases "split c xs") auto
  show ?case using Cons sp by (simp add: join_Cons_Cons)
qed

lemma weave_Cons_Cons: "weave ((x # p) # ps) xs = x # weave (p # ps) xs"
  by (cases ps; cases xs) simp_all

lemma weave_append_hd: "weave ((u @ p) # ps) xs = u @ weave (p # ps) xs"
  by (induction u) (simp_all add: weave_Cons_Cons)

lemma split_append_no_sep:
  "c \<notin> set u \<Longrightarrow> split c (u @ v) = (u @ hd (split c v)) # tl (split c v)"
proof (induction u)
  case Nil
  then show ?case using split_not_Nil [of c v] by simp
next
  case (Cons x u)
  then show ?case by auto
qed

lemma weave_parts:
  "Suc (length xs) = length ps \<Longrightarrow>
     prefix (hd ps) (weave ps xs) \<and> suffix (last ps) (weave ps xs)
     \<and> (\<forall>p \<in> set ps. sublist p (weave ps xs))"
proof (induction ps xs rule: weave.induct)
  case (4 p q ps x xs)
  then have ih: "suffix (last (q # ps)) (weave (q # ps) xs)"
    "\<forall>r \<in> set (q # ps). sublist r (weave (q # ps) xs)" by simp_all
  have "suffix (last (q # ps)) (p @ x @ weave (q # ps) xs)"
    using ih(1) by (metis append_assoc suffix_appendI)
  moreover have "sublist r (p @ x @ weave (q # ps) xs)" if "r \<in> set (q # ps)" for r
  proof -
    have "sublist r (weave (q # ps) xs)" using ih(2) that by blast
    then show ?thesis by (metis append_assoc sublist_append_leftI sublist_order.order.trans)
  qed
  ultimately show ?case by auto
qed simp_all

lemma walk_weave:
  assumes "\<forall>f \<in> set fs. WILDCARD_SINGLE_LEVEL \<in> set f \<longrightarrow> f = [WILDCARD_SINGLE_LEVEL]"
    and "[WILDCARD_MULTI_LEVEL] \<notin> set (butlast fs)"
    and "fs \<noteq> []"
    and "walk fs ts w = Some True"
    and "length fs \<le> length ts"
    and "last fs \<noteq> [WILDCARD_MULTI_LEVEL] \<longrightarrow> length ts = length fs"
  shows "\<exists>xs y. join TOPIC_SEP ts = weave (split WILDCARD_SINGLE_LEVEL (stem fs)) xs @ y
           \<and> Suc (length xs) = length (split WILDCARD_SINGLE_LEVEL (stem fs))
           \<and> (last fs \<noteq> [WILDCARD_MULTI_LEVEL] \<longrightarrow> y = [])"
  using assms
proof (induction fs arbitrary: ts)
  case Nil
  then show ?case by simp
next
  case (Cons f fs)
  obtain t ts' where ts: "ts = t # ts'"
    using Cons.prems(5) by (cases ts) auto
  show ?case
  proof (cases fs)
    case Nil
    show ?thesis
    proof (cases "f = [WILDCARD_MULTI_LEVEL]")
      case True
      have "join TOPIC_SEP ts = weave [[]] [] @ join TOPIC_SEP ts" by simp
      then show ?thesis using Nil True by auto
    next
      case nh: False
      then have l: "ts' = []" using Cons.prems(6) Nil ts by simp
      show ?thesis
      proof (cases "f = [WILDCARD_SINGLE_LEVEL]")
        case True
        have "join TOPIC_SEP [t] = weave [[], []] [t] @ []" by simp
        then show ?thesis using Nil True nh l ts
          by (intro exI [of _ "[t]"] exI [of _ "[]"]) simp
      next
        case False
        then have np: "WILDCARD_SINGLE_LEVEL \<notin> set f" using Cons.prems(1) by auto
        have ft: "f = t" using Cons.prems(4) Nil ts nh False
          by (simp split: if_splits)
        have "split WILDCARD_SINGLE_LEVEL f = [f]" using np by (rule split_no_sep)
        then show ?thesis using Nil nh l ts ft
          by (intro exI [of _ "[]"]) simp
      qed
    qed
  next
    case (Cons g gs)
    then have fs_ne: "fs \<noteq> []" by simp
    obtain t2 ts2 where ts': "ts' = t2 # ts2"
      using Cons.prems(5) Cons ts by (cases ts') auto
    have nh: "f \<noteq> [WILDCARD_MULTI_LEVEL]" using Cons.prems(2) Cons by auto
    have wk: "walk fs ts' w = Some True"
      using Cons.prems(4) ts nh by (simp split: if_splits)
    have lit: "f \<noteq> [WILDCARD_SINGLE_LEVEL] \<Longrightarrow> f = t"
      using Cons.prems(4) ts nh by (simp split: if_splits)
    have "\<exists>xs y. join TOPIC_SEP ts' = weave (split WILDCARD_SINGLE_LEVEL (stem fs)) xs @ y
           \<and> Suc (length xs) = length (split WILDCARD_SINGLE_LEVEL (stem fs))
           \<and> (last fs \<noteq> [WILDCARD_MULTI_LEVEL] \<longrightarrow> y = [])"
    proof (rule Cons.IH)
      show "\<forall>f \<in> set fs. WILDCARD_SINGLE_LEVEL \<in> set f \<longrightarrow> f = [WILDCARD_SINGLE_LEVEL]"
        using Cons.prems(1) by simp
      show "[WILDCARD_MULTI_LEVEL] \<notin> set (butlast fs)"
        using Cons.prems(2) fs_ne by simp
      show "fs \<noteq> []" by (rule fs_ne)
      show "walk fs ts' w = Some True" by (rule wk)
      show "length fs \<le> length ts'" using Cons.prems(5) ts by simp
      show "last fs \<noteq> [WILDCARD_MULTI_LEVEL] \<longrightarrow> length ts' = length fs"
        using Cons.prems(6) ts fs_ne by simp
    qed
    then obtain xs y where ih:
      "join TOPIC_SEP ts' = weave (split WILDCARD_SINGLE_LEVEL (stem fs)) xs @ y"
      "Suc (length xs) = length (split WILDCARD_SINGLE_LEVEL (stem fs))"
      "last fs \<noteq> [WILDCARD_MULTI_LEVEL] \<longrightarrow> y = []" by blast
    obtain P0 Ps where sp: "split WILDCARD_SINGLE_LEVEL (stem fs) = P0 # Ps"
      using split_not_Nil [of WILDCARD_SINGLE_LEVEL "stem fs"]
      by (cases "split WILDCARD_SINGLE_LEVEL (stem fs)") auto
    have st: "stem (f # fs) = f @ TOPIC_SEP # stem fs" using Cons by simp
    have jn: "join TOPIC_SEP ts = t @ TOPIC_SEP # join TOPIC_SEP ts'" using ts ts' by simp
    have sep: "TOPIC_SEP \<noteq> WILDCARD_SINGLE_LEVEL"
      by (simp add: TOPIC_SEP_def WILDCARD_SINGLE_LEVEL_def)
    have la: "last (f # fs) = last fs" using fs_ne by simp
    show ?thesis
    proof (cases "f = [WILDCARD_SINGLE_LEVEL]")
      case True
      have s2: "split WILDCARD_SINGLE_LEVEL (stem (f # fs)) = [] # (TOPIC_SEP # P0) # Ps"
        using st True sp sep by simp
      have "join TOPIC_SEP ts = weave ([] # (TOPIC_SEP # P0) # Ps) (t # xs) @ y"
        using jn ih(1) sp by (simp add: weave_Cons_Cons)
      then show ?thesis using s2 ih(2,3) sp la
        by (intro exI [of _ "t # xs"] exI [of _ y]) simp
    next
      case False
      then have np: "WILDCARD_SINGLE_LEVEL \<notin> set f" using Cons.prems(1) by auto
      have ft: "f = t" using lit False by simp
      have "split WILDCARD_SINGLE_LEVEL (f @ TOPIC_SEP # stem fs)
              = (f @ hd (split WILDCARD_SINGLE_LEVEL (TOPIC_SEP # stem fs)))
                # tl (split WILDCARD_SINGLE_LEVEL (TOPIC_SEP # stem fs))"
        using np by (rule split_append_no_sep)
      then have s2: "split WILDCARD_SINGLE_LEVEL (stem (f # fs)) = (f @ TOPIC_SEP # P0) # Ps"
        using st sp sep by simp
      have "join TOPIC_SEP ts = weave ((f @ TOPIC_SEP # P0) # Ps) xs @ y"
        using jn ih(1) sp ft weave_append_hd [of "f @ [TOPIC_SEP]" P0 Ps xs] by simp
      then show ?thesis using s2 ih(2,3) sp la
        by (intro exI [of _ xs] exI [of _ y]) simp
    qed
  qed
qed

lemma last_split_suffix: "suffix (last (split c s)) s"
proof (induction s)
  case Nil then show ?case by simp
next
  case (Cons x xs)
  obtain p ps where sp: "split c xs = p # ps"
    using split_not_Nil [of c xs] by (cases "split c xs") auto
  show ?case
  proof (cases "x = c")
    case True
    then show ?thesis using Cons sp by (simp add: suffix_ConsI)
  next
    case False
    show ?thesis
    proof (cases ps)
      case Nil
      then have "c \<notin> set xs" using sp length_split_one [of c xs] by simp
      then have "split c xs = [xs]" by (rule split_no_sep)
      then show ?thesis using False by simp
    next
      case (Cons q qs)
      then show ?thesis using Cons.IH sp False by (simp add: suffix_ConsI)
    qed
  qed
qed

lemma last_split_last:
  "s \<noteq> [] \<Longrightarrow> last s \<noteq> c \<Longrightarrow> last (split c s) \<noteq> [] \<and> last (last (split c s)) = last s"
proof (induction s)
  case Nil then show ?case by simp
next
  case (Cons x xs)
  obtain p ps where sp: "split c xs = p # ps"
    using split_not_Nil [of c xs] by (cases "split c xs") auto
  show ?case
  proof (cases "xs = []")
    case True
    then show ?thesis using Cons.prems by simp
  next
    case False
    then have ih: "last (split c xs) \<noteq> [] \<and> last (last (split c xs)) = last xs"
      using Cons by simp
    show ?thesis
    proof (cases "x = c")
      case True
      then show ?thesis using ih sp False by simp
    next
      case xc: False
      then show ?thesis using ih sp False by (cases ps) simp_all
    qed
  qed
qed

lemma stem_Cons_Cons:
  "ps \<noteq> [] \<Longrightarrow> stem ((x # p) # ps) = x # stem (p # ps)"
  by (cases ps) simp_all

lemma stem_split:
  "stem (split TOPIC_SEP s)
     = (if last (split TOPIC_SEP s) = [WILDCARD_MULTI_LEVEL] then butlast s else s)"
proof (induction s)
  case Nil then show ?case by simp
next
  case (Cons x xs)
  obtain p ps where sp: "split TOPIC_SEP xs = p # ps"
    using split_not_Nil [of TOPIC_SEP xs] by (cases "split TOPIC_SEP xs") auto
  have sep: "TOPIC_SEP \<noteq> WILDCARD_MULTI_LEVEL"
    by (simp add: TOPIC_SEP_def WILDCARD_MULTI_LEVEL_def)
  have xs_ne: "xs \<noteq> []" if "last (split TOPIC_SEP xs) = [WILDCARD_MULTI_LEVEL]"
    using that by auto
  show ?case
  proof (cases "x = TOPIC_SEP")
    case True
    have "stem ([] # p # ps) = TOPIC_SEP # stem (p # ps)" by simp
    then show ?thesis using True Cons sp xs_ne by auto
  next
    case False
    show ?thesis
    proof (cases ps)
      case Nil
      then have "TOPIC_SEP \<notin> set xs" using sp length_split_one [of TOPIC_SEP xs] by simp
      then have "split TOPIC_SEP xs = [xs]" by (rule split_no_sep)
      then show ?thesis using False by auto
    next
      case (Cons q qs)
      then have "stem ((x # p) # ps) = x # stem (p # ps)" by (intro stem_Cons_Cons) simp
      then show ?thesis using False Cons.IH sp Cons xs_ne by auto
    qed
  qed
qed

lemma grammar_parts:
  assumes "topic_grammar s"
  shows "\<forall>f \<in> set (split TOPIC_SEP s).
           WILDCARD_SINGLE_LEVEL \<in> set f \<longrightarrow> f = [WILDCARD_SINGLE_LEVEL]"
    and "\<forall>f \<in> set (split TOPIC_SEP s).
           WILDCARD_MULTI_LEVEL \<in> set f \<longrightarrow> f = [WILDCARD_MULTI_LEVEL]"
    and "[WILDCARD_MULTI_LEVEL] \<notin> set (butlast (split TOPIC_SEP s))"
  using assms by (auto simp: topic_grammar_def Let_def list_all_iff)

lemma grammar_multi:
  assumes "topic_grammar s"
  shows "endswith s [WILDCARD_MULTI_LEVEL] = (last (split TOPIC_SEP s) = [WILDCARD_MULTI_LEVEL])"
proof
  assume e: "endswith s [WILDCARD_MULTI_LEVEL]"
  then have s: "s \<noteq> []" "last s = WILDCARD_MULTI_LEVEL"
    by (auto simp: endswith_def suffix_def)
  have "last s \<noteq> TOPIC_SEP" using s by (simp add: TOPIC_SEP_def WILDCARD_MULTI_LEVEL_def)
  then have l: "last (split TOPIC_SEP s) \<noteq> []"
    "last (last (split TOPIC_SEP s)) = WILDCARD_MULTI_LEVEL"
    using last_split_last [of s TOPIC_SEP] s by simp_all
  then have "WILDCARD_MULTI_LEVEL \<in> set (last (split TOPIC_SEP s))"
    by (metis last_in_set)
  moreover have "last (split TOPIC_SEP s) \<in> set (split TOPIC_SEP s)"
    using split_not_Nil by simp
  ultimately show "last (split TOPIC_SEP s) = [WILDCARD_MULTI_LEVEL]"
    using grammar_parts(2) [OF assms] by blast
next
  assume "last (split TOPIC_SEP s) = [WILDCARD_MULTI_LEVEL]"
  then show "endswith s [WILDCARD_MULTI_LEVEL]"
    using last_split_suffix [of TOPIC_SEP s] by (simp add: endswith_def)
qed

lemma weave_join: "weave ps (replicate (length ps - 1) [c]) = join c ps"
  by (induction c ps rule: join.induct) simp_all

lemma weave_split: "weave (split c s) (replicate (length (split c s) - 1) [c]) = s"
  using weave_join [of "split c s" c] by (simp only: join_split)

lemma fold_filter:
  "fold (\<lambda>part cs. filter (P part) cs) qs cands = filter (\<lambda>t. \<forall>q \<in> set qs. P q t) cands"
proof (induction qs arbitrary: cands)
  case Nil then show ?case by simp
next
  case (Cons q qs)
  show ?case by (simp add: Cons.IH)
qed

lemma get_candidates_prefilter:
  "get_candidates st self
     = filter (\<lambda>t. (dollar t = is_dollar self \<and> wildcard t = False) \<and> prefilter self t)
              (topics st)"
  unfolding get_candidates_def prefilter_def cand_topic_def Let_def
  by (simp add: fold_filter conj_commute conj_left_commute cong: filter_cong)

lemma covers_walk:
  assumes "covers F T" "name F \<noteq> name T"
  shows "walk (split TOPIC_SEP (name F)) (split TOPIC_SEP (name T)) (is_wildcard T) = Some True"
    and "length (split TOPIC_SEP (name F)) \<le> length (split TOPIC_SEP (name T))"
    and "\<not> endswith (name F) [WILDCARD_MULTI_LEVEL]
           \<longrightarrow> length (split TOPIC_SEP (name T)) = length (split TOPIC_SEP (name F))"
  using assms
  by (auto simp: covers_def Topic_contains_def Let_def Topic_eq_def
           split: if_splits option.splits)

lemma cand_topic_stem:
  "topic_grammar (name F) \<Longrightarrow> stem (split TOPIC_SEP (name F)) = cand_topic F"
  by (simp add: stem_split cand_topic_def grammar_multi)

lemma covers_weave:
  assumes g: "topic_grammar (name F)" and c: "covers F T"
  shows "\<exists>xs y. name T = weave (split WILDCARD_SINGLE_LEVEL (cand_topic F)) xs @ y
           \<and> Suc (length xs) = length (split WILDCARD_SINGLE_LEVEL (cand_topic F))
           \<and> (\<not> endswith (name F) [WILDCARD_MULTI_LEVEL] \<longrightarrow> y = [])"
proof (cases "name F = name T")
  case True
  let ?ps = "split WILDCARD_SINGLE_LEVEL (cand_topic F)"
  let ?xs = "replicate (length ?ps - 1) [WILDCARD_SINGLE_LEVEL]"
  let ?y = "if endswith (name F) [WILDCARD_MULTI_LEVEL] then [last (name F)] else []"
  have w: "weave ?ps ?xs = cand_topic F" by (rule weave_split)
  have "name F = cand_topic F @ ?y"
    by (auto simp: cand_topic_def endswith_def suffix_def)
  then have "name T = weave ?ps ?xs @ ?y" using True w by simp
  moreover have "Suc (length ?xs) = length ?ps"
    using length_split_pos [of WILDCARD_SINGLE_LEVEL "cand_topic F"] by simp
  moreover have "\<not> endswith (name F) [WILDCARD_MULTI_LEVEL] \<longrightarrow> ?y = []" by simp
  ultimately show ?thesis by blast
next
  case False
  let ?fs = "split TOPIC_SEP (name F)" and ?ts = "split TOPIC_SEP (name T)"
  have m: "endswith (name F) [WILDCARD_MULTI_LEVEL] = (last ?fs = [WILDCARD_MULTI_LEVEL])"
    using g by (rule grammar_multi)
  have "\<exists>xs y. join TOPIC_SEP ?ts = weave (split WILDCARD_SINGLE_LEVEL (stem ?fs)) xs @ y
           \<and> Suc (length xs) = length (split WILDCARD_SINGLE_LEVEL (stem ?fs))
           \<and> (last ?fs \<noteq> [WILDCARD_MULTI_LEVEL] \<longrightarrow> y = [])"
  proof (rule walk_weave)
    show "\<forall>f \<in> set ?fs. WILDCARD_SINGLE_LEVEL \<in> set f \<longrightarrow> f = [WILDCARD_SINGLE_LEVEL]"
      using g by (rule grammar_parts(1))
    show "[WILDCARD_MULTI_LEVEL] \<notin> set (butlast ?fs)"
      using g by (rule grammar_parts(3))
    show "?fs \<noteq> []" by (rule split_not_Nil)
    show "walk ?fs ?ts (is_wildcard T) = Some True"
      using c False by (rule covers_walk(1))
    show "length ?fs \<le> length ?ts"
      using c False by (rule covers_walk(2))
    show "last ?fs \<noteq> [WILDCARD_MULTI_LEVEL] \<longrightarrow> length ?ts = length ?fs"
      using covers_walk(3) [OF c False] m by simp
  qed
  then show ?thesis
    using m by (simp add: join_split cand_topic_stem [OF g])
qed

lemma sublist_single: "sublist [c] s = (c \<in> set s)"
proof
  assume "sublist [c] s"
  then show "c \<in> set s" by (auto simp: sublist_def)
next
  assume "c \<in> set s"
  then obtain ps ss where "s = ps @ c # ss" by (meson split_list)
  then show "sublist [c] s" by (auto simp: sublist_def)
qed

lemma cand_topic_plus:
  assumes g: "topic_grammar (name F)" and p: "cand_topic F = [WILDCARD_SINGLE_LEVEL]"
  shows "name F = [WILDCARD_SINGLE_LEVEL]"
proof (rule ccontr)
  assume n: "name F \<noteq> [WILDCARD_SINGLE_LEVEL]"
  then have e: "endswith (name F) [WILDCARD_MULTI_LEVEL]"
    "butlast (name F) = [WILDCARD_SINGLE_LEVEL]"
    using p by (auto simp: cand_topic_def split: if_splits)
  then have "name F = [WILDCARD_SINGLE_LEVEL, WILDCARD_MULTI_LEVEL]"
    by (auto simp: endswith_def suffix_def)
  then have "split TOPIC_SEP (name F) = [[WILDCARD_SINGLE_LEVEL, WILDCARD_MULTI_LEVEL]]"
    by (simp add: TOPIC_SEP_def WILDCARD_SINGLE_LEVEL_def WILDCARD_MULTI_LEVEL_def)
  then show False using grammar_parts(1) [OF g]
    by (simp add: WILDCARD_SINGLE_LEVEL_def WILDCARD_MULTI_LEVEL_def)
qed

lemma covers_prefilter:
  assumes g: "topic_grammar (name F)" and c: "covers F T"
  shows "prefilter F T"
proof -
  let ?ps = "split WILDCARD_SINGLE_LEVEL (cand_topic F)"
  obtain xs y where d: "name T = weave ?ps xs @ y" "Suc (length xs) = length ?ps"
    "\<not> endswith (name F) [WILDCARD_MULTI_LEVEL] \<longrightarrow> y = []"
    using covers_weave [OF g c] by blast
  have w: "prefix (hd ?ps) (weave ?ps xs)" "suffix (last ?ps) (weave ?ps xs)"
    "\<forall>p \<in> set ?ps. sublist p (weave ?ps xs)"
    using weave_parts [OF d(2)] by simp_all
  have pre: "prefix (hd ?ps) (name T)" using w(1) d(1) by (simp add: prefix_prefix)
  have sub: "sublist p (name T)" if "p \<in> set ?ps" for p
  proof -
    have "sublist p (weave ?ps xs)" using w(3) that by blast
    then show ?thesis using d(1)
      by (metis sublist_append_rightI sublist_order.order.trans)
  qed
  have suf: "suffix (last ?ps) (name T)" if "\<not> endswith (name F) [WILDCARD_MULTI_LEVEL]"
    using that d(1,3) w(2) by simp
  have ne: "?ps \<noteq> []" by (rule split_not_Nil)
  have one: "startswith (name T) (cand_topic F)" if "length ?ps = 1"
  proof -
    have "WILDCARD_SINGLE_LEVEL \<notin> set (cand_topic F)"
      using that length_split_one [of WILDCARD_SINGLE_LEVEL "cand_topic F"] by simp
    then have "?ps = [cand_topic F]" by (rule split_no_sep)
    then show ?thesis using pre by (simp add: startswith_def)
  qed
  have plus: "\<not> str_contains (name T) [TOPIC_SEP]" if "cand_topic F = [WILDCARD_SINGLE_LEVEL]"
  proof -
    have "name F = [WILDCARD_SINGLE_LEVEL]" using g that by (rule cand_topic_plus)
    then have "TOPIC_SEP \<notin> set (name T)" using c plus_covers [of F T] by simp
    then show ?thesis by (simp add: str_contains_def sublist_single)
  qed
  have last_in: "last ?ps \<in> set ?ps" using ne by simp
  have mid: "str_contains (name T) part" if "part \<in> set (butlast (tl ?ps))" for part
  proof -
    have "part \<in> set ?ps" using that by (meson in_set_butlastD list.set_sel(2) ne)
    then show ?thesis using sub by (simp add: str_contains_def)
  qed
  show ?thesis
    unfolding prefilter_def Let_def
    using one plus pre suf sub [OF last_in] mid
    by (auto simp: startswith_def endswith_def str_contains_def)
qed

lemma filter_in_covers: "filter_in self cs = Inr (filter (covers self) cs)"
  by (induction cs) (simp_all add: Topic_contains_covers)

section \<open>Claim on the candidate index\<close>

text \<open>
  Claim C9: for a wildcard filter \<open>F\<close> whose name keeps the topic grammar, every stored
  topic with the wildcard flag unset and the dollar flag of \<open>F\<close> that \<open>F\<close> covers satisfies
  the prefix, suffix and containment conditions of the prefilter, so \<^verbatim>\<open>get_candidates\<close>
  returns it; and iterating \<open>F\<close> yields exactly those stored topics, in the order of the
  table.
\<close>

theorem C9:
  "is_wildcard F \<and> topic_grammar (name F) \<longrightarrow>
     (\<forall>T \<in> set (topics st). wildcard T = False \<and> dollar T = is_dollar F \<and> covers F T \<longrightarrow>
         prefilter F T \<and> T \<in> set (get_candidates st F))
     \<and> Topic_iter st F
         = Inr (filter (\<lambda>T. wildcard T = False \<and> dollar T = is_dollar F \<and> covers F T) (topics st))"
proof (intro impI, elim conjE)
  assume w: "is_wildcard F" and g: "topic_grammar (name F)"
  have p: "\<And>T. covers F T \<Longrightarrow> prefilter F T" using g by (rule covers_prefilter)
  have "Topic_iter st F = Inr (filter (covers F) (get_candidates st F))"
    using w by (simp add: Topic_iter_def filter_in_covers)
  also have "filter (covers F) (get_candidates st F)
      = filter (\<lambda>T. wildcard T = False \<and> dollar T = is_dollar F \<and> covers F T) (topics st)"
    unfolding get_candidates_prefilter using p by (auto intro: filter_cong)
  finally have "Topic_iter st F
      = Inr (filter (\<lambda>T. wildcard T = False \<and> dollar T = is_dollar F \<and> covers F T) (topics st))" .
  then show "(\<forall>T \<in> set (topics st). wildcard T = False \<and> dollar T = is_dollar F \<and> covers F T \<longrightarrow>
         prefilter F T \<and> T \<in> set (get_candidates st F))
     \<and> Topic_iter st F
         = Inr (filter (\<lambda>T. wildcard T = False \<and> dollar T = is_dollar F \<and> covers F T) (topics st))"
    using p by (simp add: get_candidates_prefilter)
qed

theorem C9_witness:
  "topics index_store ! 0 \<in> set (get_candidates index_store (new_Topic ''a/+/c''))
   \<and> Topic_iter index_store (new_Topic ''a/+/c'')
       = Inr [topics index_store ! 0, topics index_store ! 2]"
proof -
  have g: "topic_grammar (name (new_Topic ''a/+/c''))"
    by (simp add: topic_grammar_def new_Topic_def const_defs)
  have w: "is_wildcard (new_Topic ''a/+/c'')"
    by (simp add: is_wildcard_def new_Topic_def const_defs)
  have c: "filter (\<lambda>T. wildcard T = False \<and> dollar T = is_dollar (new_Topic ''a/+/c'')
                        \<and> covers (new_Topic ''a/+/c'') T) (topics index_store)
           = [topics index_store ! 0, topics index_store ! 2]"
    by (simp add: index_store_def topic_defs const_defs suffix_def)
  have m: "topics index_store ! 0 \<in> set (topics index_store)"
    "wildcard (topics index_store ! 0) = False"
    "dollar (topics index_store ! 0) = is_dollar (new_Topic ''a/+/c'')"
    "covers (new_Topic ''a/+/c'') (topics index_store ! 0)"
    by (simp_all add: index_store_def topic_defs const_defs suffix_def)
  show ?thesis
    using C9 [of "new_Topic ''a/+/c''" index_store] g w c m by auto
qed

text \<open>
  The grammar is needed: a name with \<^verbatim>\<open>#\<close> before the last segment covers topics that the
  prefilter drops.
\<close>

lemma prefilter_needs_grammar:
  "is_wildcard (new_Topic ''#/a'') \<and> \<not> topic_grammar ''#/a''
   \<and> covers (new_Topic ''#/a'') (new_Topic ''x/y'')
   \<and> \<not> prefilter (new_Topic ''#/a'') (new_Topic ''x/y'')"
  by (simp add: topic_defs const_defs suffix_def topic_grammar_def prefilter_def cand_topic_def)

end
